theory Spec2Isabelle
  imports Main
begin

section \<open>Data model (types.ts)\<close>

text \<open>
  The numbers of the source are JavaScript numbers, that is, IEEE doubles, and they hold
  integers here: a total supply (\<open>Number(supply)\<close>) and the three settings read with
  \<open>parseInt\<close>. They are modelled as \<open>int\<close>, so that zero and negative settings are
  inputs of the model; \<open>NaN\<close> and the infinities are not modelled. A sum of two such
  numbers is exact up to \<open>2^53\<close> and rounded to the nearest double beyond (section
  \<open>Numbers\<close>); \<open>createBatches\<close>, whose index runs up to the total supply, adds with
  that rounding. The index of \<open>createBatchesFromArray\<close> and \<open>concurrentMap\<close> is compared
  with the length of an array, which is below \<open>2^32\<close>: a sum that is rounded there lies
  beyond \<open>2^53\<close> on the same side as the exact sum, the slices and the loop tests are
  the same for both, and these loops add on \<open>int\<close>.
  Strings are \<open>string\<close>. Field names that clash with a constant or a keyword carry a
  suffix: \<open>id_d\<close> is \<open>id\<close>, \<open>note_d\<close> is \<open>note\<close>, \<open>end_b\<close> is \<open>end\<close>, and the fields of
  \<open>ContractMetadata\<close> end in \<open>_m\<close>, the settings of \<open>IndexerConfig\<close> in \<open>_c\<close>.
\<close>

record DomainData =
  id_d :: string
  name :: string
  did :: string
  note_d :: string
  allowSubdomain :: bool
  owner :: string
  subdomains :: "string list"

record ContractMetadata =
  domain_m :: string
  did_m :: string
  notes_m :: string
  allowSubdomain_m :: bool

record IndexerConfig =
  rpcUrl :: string
  contractAddress :: string
  batchSize_c :: int
  concurrency_c :: int
  retryAttempts_c :: int

text \<open>The object \<open>{ start, end }\<close> that \<open>createBatches\<close> pushes.\<close>

record Batch =
  start :: int
  end_b :: int

section \<open>Numbers\<close>

text \<open>
  A double has a significand of 53 bits. \<open>roundDouble x\<close> is the double nearest to the
  integer \<open>x\<close>, the tie going to the even significand, as IEEE addition rounds its
  exact sum: \<open>bitLength\<close> is the number of bits of a positive integer, the \<open>e\<close> bits
  beyond the 53rd are rounded off, and an integer below \<open>2^53\<close> in absolute value is
  kept. \<open>jsAdd a b\<close> is \<open>a + b\<close> of the source for two integer doubles. Sums beyond the
  range of the doubles (\<open>2^1024\<close>) are not modelled.
\<close>

function bitLength :: "int \<Rightarrow> nat" where
  "bitLength n = (if n \<le> 0 then 0 else Suc (bitLength (n div 2)))"
  by pat_completeness auto
termination
  by (relation "measure nat") auto

declare bitLength.simps [simp del]

definition roundDouble :: "int \<Rightarrow> int" where
  "roundDouble x =
     (let a = \<bar>x\<bar>;
          e = bitLength a - 53;
          q = a div 2 ^ e;
          r = a mod 2 ^ e;
          m = (if 2 * r < 2 ^ e \<or> (2 * r = 2 ^ e \<and> even q) then q else q + 1)
      in sgn x * (m * 2 ^ e))"

definition jsAdd :: "int \<Rightarrow> int \<Rightarrow> int" where
  "jsAdd a b = roundDouble (a + b)"

section \<open>createBatches\<close>

text \<open>
  \<open>for (let i = 0; i < total; i += batchSize) batches.push({start: i, end: Math.min(i + batchSize, total)})\<close>.
  Both sums are sums of doubles. The loop need not end (a step that is not positive,
  or a step that the rounding takes away), so it is a partial function: \<open>None\<close> is the
  loop running forever.
\<close>

partial_function (option) createBatches_loop :: "int \<Rightarrow> int \<Rightarrow> int \<Rightarrow> Batch list \<Rightarrow> Batch list option" where
  "createBatches_loop total_n batchSize i batches =
     (if i < total_n
      then createBatches_loop total_n batchSize (jsAdd i batchSize)
             (batches @ [\<lparr>start = i, end_b = min (jsAdd i batchSize) total_n\<rparr>])
      else Some batches)"

definition createBatches :: "int \<Rightarrow> int \<Rightarrow> Batch list option" where
  "createBatches total_n batchSize = createBatches_loop total_n batchSize 0 []"

declare createBatches_loop.simps [code]

section \<open>createBatchesFromArray\<close>

text \<open>
  \<open>Array.prototype.slice(s, e)\<close>: a negative index counts from the end, every index is
  clamped to the array, and an empty range gives the empty array.
\<close>

definition jsSlice :: "'a list \<Rightarrow> int \<Rightarrow> int \<Rightarrow> 'a list" where
  "jsSlice xs s e =
     (let len = int (length xs);
          k = (if s < 0 then max (len + s) 0 else min s len);
          final = (if e < 0 then max (len + e) 0 else min e len)
      in take (nat (final - k)) (drop (nat k) xs))"

text \<open>\<open>for (let i = 0; i < items.length; i += batchSize) batches.push(items.slice(i, i + batchSize))\<close>\<close>

partial_function (option) createBatchesFromArray_loop ::
    "'a list \<Rightarrow> int \<Rightarrow> int \<Rightarrow> 'a list list \<Rightarrow> 'a list list option" where
  "createBatchesFromArray_loop items batchSize i batches =
     (if i < int (length items)
      then createBatchesFromArray_loop items batchSize (i + batchSize)
             (batches @ [jsSlice items i (i + batchSize)])
      else Some batches)"

declare createBatchesFromArray_loop.simps [code]

definition createBatchesFromArray :: "'a list \<Rightarrow> int \<Rightarrow> 'a list list option" where
  "createBatchesFromArray items batchSize = createBatchesFromArray_loop items batchSize 0 []"

section \<open>Failures\<close>

text \<open>
  What a call can fail with. \<open>Rethrown e\<close> is an error object \<open>e\<close> raised by a
  collaborator (the contract call, the decoder) and passed on as it is;
  \<open>Error msg\<close> is \<open>new Error(msg)\<close>. \<open>CallFailure\<close>, \<open>DecodeFailure\<close> and
  \<open>ConfigError\<close> are the error kinds of the specification's taxonomy; they are part
  of the type so that statements about them can be written, and no function below
  constructs them, as no function of the source does.
\<close>

datatype 'e thrown =
    Rethrown 'e
  | Error string
  | CallFailure int 'e
  | DecodeFailure
  | ConfigError

section \<open>concurrentMap\<close>

text \<open>
  A unit of work \<open>fn item\<close> is a promise: it settles at some moment, fulfilled
  (\<open>Inr\<close>) or rejected (\<open>Inl\<close>). The moment is a rank within its window, so that the
  order in which the units of a window complete is an input of the model.
  \<open>Promise.all\<close> rejects with the reason of the promise that rejects first, and is
  fulfilled with the values in the order of its argument when none rejects.
\<close>

fun firstRejected :: "(nat \<times> ('t + 'r)) list \<Rightarrow> (nat \<times> 't) option" where
  "firstRejected [] = None"
| "firstRejected ((at, Inr v) # ps) = firstRejected ps"
| "firstRejected ((at, Inl e) # ps) =
     (case firstRejected ps of
        None \<Rightarrow> Some (at, e)
      | Some (at', e') \<Rightarrow> if at' < at then Some (at', e') else Some (at, e))"

definition promiseAll :: "(nat \<times> ('t + 'r)) list \<Rightarrow> 't + 'r list" where
  "promiseAll ps =
     (case firstRejected ps of
        Some (at, e) \<Rightarrow> Inl e
      | None \<Rightarrow> Inr (List.map_filter (\<lambda>(at, out). case out of Inr v \<Rightarrow> Some v | Inl e \<Rightarrow> None) ps))"

text \<open>
  \<open>for (let i = 0; i < items.length; i += concurrency)\<close>: the chunk is
  \<open>items.slice(i, i + concurrency)\<close>, every unit of the chunk is started, and a
  rejection of \<open>Promise.all\<close> leaves the loop at the \<open>await\<close>. The second component
  of the result lists the units that were started, in order.
\<close>

partial_function (option) concurrentMap_loop ::
    "'a list \<Rightarrow> ('a \<Rightarrow> nat \<times> ('t + 'r)) \<Rightarrow> int \<Rightarrow> int \<Rightarrow> 'r list \<Rightarrow> 'a list
       \<Rightarrow> (('t + 'r list) \<times> 'a list) option" where
  "concurrentMap_loop items fn concurrency i results started =
     (if i < int (length items)
      then (let chunk = jsSlice items i (i + concurrency) in
            case promiseAll (map fn chunk) of
              Inl e \<Rightarrow> Some (Inl e, started @ chunk)
            | Inr chunkResults \<Rightarrow>
                concurrentMap_loop items fn concurrency (i + concurrency)
                  (results @ chunkResults) (started @ chunk))
      else Some (Inr results, started))"

declare concurrentMap_loop.simps [code]

definition concurrentMap ::
    "'a list \<Rightarrow> ('a \<Rightarrow> nat \<times> ('t + 'r)) \<Rightarrow> int \<Rightarrow> (('t + 'r list) \<times> 'a list) option" where
  "concurrentMap items fn concurrency = concurrentMap_loop items fn concurrency 0 [] []"

section \<open>The collaborators\<close>

text \<open>
  The ethers objects the indexer holds (\<open>contract\<close>, \<open>contractInterface\<close>) are not
  part of the repository; they are the fields of this record, and \<open>'e\<close> is the type
  of the error objects they raise.
  \<^item> \<open>totalSupply\<close>: \<open>Number(await contract.totalSupply())\<close>, or the error raised.
  \<^item> \<open>staticCall calls attempt\<close>: the answer of \<open>contract.multicall.staticCall(calls)\<close>
    when it is called for the \<open>attempt\<close>-th time on these calls; the answer may
    change from one attempt to the next.
  \<^item> \<open>latency calls\<close>: the rank at which the unit of work that sends \<open>calls\<close> settles.
  \<^item> \<open>encode...\<close>: \<open>contractInterface.encodeFunctionData\<close> for the three functions.
  \<^item> \<open>decode...\<close>: \<open>contractInterface.decodeFunctionResult\<close> for the three
    functions, with the projection the source applies to the result. The decoders of
    \<open>multicallGetDetails\<close> read \<open>results[i * 2]\<close> and \<open>results[i * 2 + 1]\<close>, which are
    \<open>undefined\<close> out of range: their argument is an option.
\<close>

record 'e Contract =
  totalSupply :: "'e + int"
  staticCall :: "string list \<Rightarrow> int \<Rightarrow> 'e + string list"
  latency :: "string list \<Rightarrow> nat"
  encodeTokenByIndex :: "int \<Rightarrow> string"
  encodeGetMetadata :: "string \<Rightarrow> string"
  encodeOwnerOf :: "string \<Rightarrow> string"
  decodeTokenByIndex :: "string \<Rightarrow> 'e + string"
  decodeGetMetadata :: "string option \<Rightarrow> 'e + ContractMetadata"
  decodeOwnerOf :: "string option \<Rightarrow> 'e + string"

section \<open>executeMulticallWithRetry\<close>

text \<open>
  The second component of the result is what the function did, in order: the calls,
  the two log lines (\<open>console.warn\<close>, \<open>console.error\<close>) with the attempt number they
  print, and the sleeps with their duration in milliseconds.
\<close>

datatype event = is_Call: Call int | Warn int | Sleep int | Failed int

function executeMulticallWithRetry_loop ::
    "IndexerConfig \<Rightarrow> 'e Contract \<Rightarrow> string list \<Rightarrow> int \<Rightarrow> event list
       \<Rightarrow> ('e thrown + string list) \<times> event list" where
  "executeMulticallWithRetry_loop cfg C calls attempt trace =
     (if attempt \<le> retryAttempts_c cfg
      then (case staticCall C calls attempt of
              Inr results \<Rightarrow> (Inr results, trace @ [Call attempt])
            | Inl error \<Rightarrow>
                if attempt = retryAttempts_c cfg
                then (Inl (Rethrown error), trace @ [Call attempt, Failed attempt])
                else executeMulticallWithRetry_loop cfg C calls (attempt + 1)
                       (trace @ [Call attempt, Warn attempt, Sleep (1000 * attempt)]))
      else (Inl (Error ''Multicall failed''), trace))"
  by pat_completeness auto
termination
  by (relation "measure (\<lambda>(cfg, C, calls, attempt, trace). nat (retryAttempts_c cfg + 1 - attempt))")
     auto

declare executeMulticallWithRetry_loop.simps [simp del]

definition executeMulticallWithRetry ::
    "IndexerConfig \<Rightarrow> 'e Contract \<Rightarrow> string list \<Rightarrow> ('e thrown + string list) \<times> event list" where
  "executeMulticallWithRetry cfg C calls = executeMulticallWithRetry_loop cfg C calls 1 []"

section \<open>multicallTokenByIndex and batchGetTokenIds\<close>

text \<open>
  The console output and the progress callback change no result and are left out of
  the stages. \<open>encodeFunctionData\<close> is taken to succeed on the indices and
  identifiers the stages give it.
\<close>

definition tokenByIndexCalls :: "'e Contract \<Rightarrow> int \<Rightarrow> int \<Rightarrow> string list" where
  "tokenByIndexCalls C s e = map (encodeTokenByIndex C) [s..e - 1]"

fun decodeTokenIds :: "'e Contract \<Rightarrow> string list \<Rightarrow> string list \<Rightarrow> 'e thrown + string list" where
  "decodeTokenIds C [] tokenIds = Inr tokenIds"
| "decodeTokenIds C (result # results) tokenIds =
     (case decodeTokenByIndex C result of
        Inl e \<Rightarrow> Inl (Rethrown e)
      | Inr decoded \<Rightarrow> decodeTokenIds C results (tokenIds @ [decoded]))"

definition multicallTokenByIndex ::
    "IndexerConfig \<Rightarrow> 'e Contract \<Rightarrow> int \<Rightarrow> int \<Rightarrow> 'e thrown + string list" where
  "multicallTokenByIndex cfg C s e =
     (case fst (executeMulticallWithRetry cfg C (tokenByIndexCalls C s e)) of
        Inl t \<Rightarrow> Inl t
      | Inr results \<Rightarrow> decodeTokenIds C results [])"

definition batchGetTokenIds ::
    "IndexerConfig \<Rightarrow> 'e Contract \<Rightarrow> int \<Rightarrow> ('e thrown + string list) option" where
  "batchGetTokenIds cfg C total_n =
     (case createBatches total_n (batchSize_c cfg) of
        None \<Rightarrow> None
      | Some batches \<Rightarrow>
          (case concurrentMap batches
                  (\<lambda>batch. (latency C (tokenByIndexCalls C (start batch) (end_b batch)),
                             multicallTokenByIndex cfg C (start batch) (end_b batch)))
                  (concurrency_c cfg) of
             None \<Rightarrow> None
           | Some (Inl t, started) \<Rightarrow> Some (Inl t)
           | Some (Inr results, started) \<Rightarrow> Some (Inr (concat results))))"

section \<open>multicallGetDetails and batchGetDomainDetails\<close>

text \<open>
  \<open>String.prototype.toLowerCase\<close> on the ASCII letters; an owner is a hexadecimal
  address, and the other characters are left as they are.
\<close>

definition toLowerChar :: "char \<Rightarrow> char" where
  "toLowerChar c =
     (if 65 \<le> (of_char c :: nat) \<and> (of_char c :: nat) \<le> 90
      then char_of (of_char c + 32 :: nat) else c)"

definition toLowerCase :: "string \<Rightarrow> string" where
  "toLowerCase s = map toLowerChar s"

text \<open>\<open>xs[i]\<close>: \<open>undefined\<close> out of range.\<close>

definition jsIndex :: "'a list \<Rightarrow> nat \<Rightarrow> 'a option" where
  "jsIndex xs i = (if i < length xs then Some (xs ! i) else None)"

text \<open>The first loop: two calls for each token, metadata first.\<close>

fun detailCalls :: "'e Contract \<Rightarrow> string list \<Rightarrow> string list \<Rightarrow> string list" where
  "detailCalls C [] calls = calls"
| "detailCalls C (tokenId # tokenIds) calls =
     detailCalls C tokenIds (calls @ [encodeGetMetadata C tokenId] @ [encodeOwnerOf C tokenId])"

text \<open>The second loop, \<open>for (let i = 0; i < tokenIds.length; i++)\<close>, over its indices.\<close>

fun decodeDetails ::
    "'e Contract \<Rightarrow> string list \<Rightarrow> string list \<Rightarrow> nat list \<Rightarrow> DomainData list
       \<Rightarrow> 'e thrown + DomainData list" where
  "decodeDetails C tokenIds results [] domains = Inr domains"
| "decodeDetails C tokenIds results (i # is) domains =
     (case decodeGetMetadata C (jsIndex results (i * 2)) of
        Inl e \<Rightarrow> Inl (Rethrown e)
      | Inr metadata \<Rightarrow>
          (case decodeOwnerOf C (jsIndex results (i * 2 + 1)) of
             Inl e \<Rightarrow> Inl (Rethrown e)
           | Inr ownerResult \<Rightarrow>
               decodeDetails C tokenIds results is
                 (domains @
                  [\<lparr>id_d = tokenIds ! i,
                    name = domain_m metadata,
                    did = did_m metadata,
                    note_d = notes_m metadata,
                    allowSubdomain = allowSubdomain_m metadata,
                    owner = toLowerCase ownerResult,
                    subdomains = []\<rparr>])))"

definition multicallGetDetails ::
    "IndexerConfig \<Rightarrow> 'e Contract \<Rightarrow> string list \<Rightarrow> 'e thrown + DomainData list" where
  "multicallGetDetails cfg C tokenIds =
     (case fst (executeMulticallWithRetry cfg C (detailCalls C tokenIds [])) of
        Inl t \<Rightarrow> Inl t
      | Inr results \<Rightarrow> decodeDetails C tokenIds results [0..<length tokenIds] [])"

text \<open>\<open>Math.floor(batchSize / 2)\<close> is \<open>div\<close> on \<open>int\<close>, which rounds down.\<close>

definition batchGetDomainDetails ::
    "IndexerConfig \<Rightarrow> 'e Contract \<Rightarrow> string list \<Rightarrow> ('e thrown + DomainData list) option" where
  "batchGetDomainDetails cfg C tokenIds =
     (let detailBatchSize = batchSize_c cfg div 2 in
      case createBatchesFromArray tokenIds detailBatchSize of
        None \<Rightarrow> None
      | Some batches \<Rightarrow>
          (case concurrentMap batches
                  (\<lambda>batch. (latency C (detailCalls C batch []), multicallGetDetails cfg C batch))
                  (concurrency_c cfg) of
             None \<Rightarrow> None
           | Some (Inl t, started) \<Rightarrow> Some (Inl t)
           | Some (Inr results, started) \<Rightarrow> Some (Inr (concat results))))"

section \<open>buildSubdomainRelations\<close>

text \<open>\<open>s.split(sep)\<close> and \<open>parts.join(sep)\<close> for a separator of one character.\<close>

fun split_js :: "char \<Rightarrow> string \<Rightarrow> string list" where
  "split_js sep [] = [[]]"
| "split_js sep (c # cs) =
     (if c = sep then [] # split_js sep cs
      else (c # hd (split_js sep cs)) # tl (split_js sep cs))"

fun join_js :: "char \<Rightarrow> string list \<Rightarrow> string" where
  "join_js sep [] = []"
| "join_js sep [p] = p"
| "join_js sep (p # q # ps) = p @ sep # join_js sep (q # ps)"

text \<open>
  The records are objects shared between the array \<open>domains\<close> and the map
  \<open>domainMap\<close>. The array is the store: an object is its position in the array, and
  \<open>domainMap\<close> maps a name to the position of the object set last for it. Every
  record has a subdomains array of its own (\<open>multicallGetDetails\<close> makes a new one for
  each record), so a push changes one record.
\<close>

definition domainMap_of :: "DomainData list \<Rightarrow> (string \<rightharpoonup> nat)" where
  "domainMap_of domains =
     fold (\<lambda>j m. m(name (domains ! j) \<mapsto> j)) [0..<length domains] Map.empty"

definition linkStep :: "(string \<rightharpoonup> nat) \<Rightarrow> nat \<Rightarrow> DomainData list \<Rightarrow> DomainData list" where
  "linkStep domainMap j domains =
     (let parts = split_js (CHR ''.'') (name (domains ! j)) in
      if length parts > 1
      then (let parentDomain = join_js (CHR ''.'') (drop 1 parts) in
            case domainMap parentDomain of
              None \<Rightarrow> domains
            | Some p \<Rightarrow>
                if name (domains ! j) \<notin> set (subdomains (domains ! p))
                then domains[p := (domains ! p)
                        \<lparr>subdomains := subdomains (domains ! p) @ [name (domains ! j)]\<rparr>]
                else domains)
      else domains)"

definition buildSubdomainRelations :: "DomainData list \<Rightarrow> DomainData list" where
  "buildSubdomainRelations domains =
     fold (linkStep (domainMap_of domains)) [0..<length domains] domains"

section \<open>indexAllDomains\<close>

text \<open>
  The constructor stores the configuration it is given in \<open>this.config\<close> and checks
  nothing; the methods read it from there. In the model the configuration and the
  collaborators are the parameters \<open>cfg\<close> and \<open>C\<close> of every method.
\<close>

definition getTotalSupply :: "'e Contract \<Rightarrow> 'e thrown + int" where
  "getTotalSupply C = (case totalSupply C of Inl e \<Rightarrow> Inl (Rethrown e) | Inr supply \<Rightarrow> Inr supply)"

definition indexAllDomains ::
    "IndexerConfig \<Rightarrow> 'e Contract \<Rightarrow> ('e thrown + DomainData list) option" where
  "indexAllDomains cfg C =
     (case getTotalSupply C of
        Inl t \<Rightarrow> Some (Inl t)
      | Inr supply \<Rightarrow>
          (case batchGetTokenIds cfg C supply of
             None \<Rightarrow> None
           | Some (Inl t) \<Rightarrow> Some (Inl t)
           | Some (Inr tokenIds) \<Rightarrow>
               (case batchGetDomainDetails cfg C tokenIds of
                  None \<Rightarrow> None
                | Some (Inl t) \<Rightarrow> Some (Inl t)
                | Some (Inr domains) \<Rightarrow> Some (Inr (buildSubdomainRelations domains)))))"

section \<open>getStatistics\<close>

record Statistics =
  total_s :: nat
  topLevel :: nat
  subdomains_s :: nat
  withDID :: nat
  allowingSubdomains :: nat

definition getStatistics :: "DomainData list \<Rightarrow> Statistics" where
  "getStatistics domains =
     \<lparr>total_s = length domains,
      topLevel = length (filter (\<lambda>d. CHR ''.'' \<notin> set (name d)) domains),
      subdomains_s = length (filter (\<lambda>d. CHR ''.'' \<in> set (name d)) domains),
      withDID = length (filter (\<lambda>d. did d \<noteq> []) domains),
      allowingSubdomains = length (filter (\<lambda>d. allowSubdomain d) domains)\<rparr>"

section \<open>The specification's schedule\<close>

text \<open>
  The ranges as the specification words them, to compare \<open>createBatches\<close> with: the
  \<open>k\<close>-th range starts at \<open>k * chunkSize\<close> and ends at
  \<open>min (k * chunkSize + chunkSize) total\<close>, for every start below \<open>total\<close>.
\<close>

definition scheduleByCount_spec :: "int \<Rightarrow> int \<Rightarrow> Batch list" where
  "scheduleByCount_spec total_n chunkSize =
     map (\<lambda>k. \<lparr>start = int k * chunkSize, end_b = min (int k * chunkSize + chunkSize) total_n\<rparr>)
       [0..<nat ((total_n + chunkSize - 1) div chunkSize)]"

section \<open>The specification's parent name\<close>

text \<open>
  The parent name as the specification words it: the name with its first label
  removed, that is, what follows the first \<open>.\<close> of the name. \<open>pushNew\<close> and
  \<open>childNames\<close> serve the proofs about \<open>buildSubdomainRelations\<close>: the guarded pushes
  of a sequence of names onto a list, and the names of the records that the loop links
  to the object at position \<open>p\<close>.
\<close>

definition parentName :: "string \<Rightarrow> string" where
  "parentName n = drop 1 (dropWhile (\<lambda>c. c \<noteq> CHR ''.'') n)"

definition pushNew :: "string list \<Rightarrow> string list \<Rightarrow> string list" where
  "pushNew listed ns = fold (\<lambda>n acc. if n \<in> set acc then acc else acc @ [n]) ns listed"

definition childNames :: "(string \<rightharpoonup> nat) \<Rightarrow> nat \<Rightarrow> DomainData list \<Rightarrow> string list" where
  "childNames m p ds =
     map name (filter (\<lambda>d. CHR ''.'' \<in> set (name d) \<and> m (parentName (name d)) = Some p) ds)"

section \<open>Properties of createBatches\<close>

lemma ceil_div_less_iff:
  fixes bs t :: int
  assumes "1 \<le> bs"
  shows "(int j * bs < t) = (j < nat ((t + bs - 1) div bs))"
proof -
  define q where "q = (t + bs - 1) div bs"
  define r where "r = (t + bs - 1) mod bs"
  have r: "0 \<le> r" "r < bs" using assms by (simp_all add: r_def)
  have eq: "t = q * bs - bs + r + 1"
    using div_mult_mod_eq[of "t + bs - 1" bs] by (simp add: q_def r_def algebra_simps)
  show ?thesis
  proof (cases "int j < q")
    case True
    then have "int j * bs \<le> (q - 1) * bs" using assms by (intro mult_right_mono) simp_all
    then have "int j * bs \<le> q * bs - bs" by (simp add: algebra_simps)
    then have "int j * bs < t" using eq r by linarith
    then show ?thesis using True by (simp add: q_def)
  next
    case False
    then have "q * bs \<le> int j * bs" using assms by (intro mult_right_mono) simp_all
    then have "\<not> int j * bs < t" using eq r by linarith
    then show ?thesis using False by (simp add: q_def)
  qed
qed

lemma bitLength_le: "a < 2 ^ k \<Longrightarrow> bitLength a \<le> k"
proof (induction k arbitrary: a)
  case 0
  then show ?case by (simp add: bitLength.simps)
next
  case (Suc k)
  show ?case
  proof (cases "a \<le> 0")
    case True
    then show ?thesis by (simp add: bitLength.simps)
  next
    case False
    have "a div 2 < 2 ^ k" using Suc.prems by simp
    from Suc.IH[OF this] show ?thesis using False by (subst bitLength.simps) simp
  qed
qed

lemma bitLength_upper: "a < 2 ^ bitLength a"
proof (induction a rule: bitLength.induct)
  case (1 n)
  show ?case
  proof (cases "n \<le> 0")
    case True
    then show ?thesis by (simp add: bitLength.simps)
  next
    case False
    from 1[OF False] have "n div 2 < 2 ^ bitLength (n div 2)" .
    then have "n < 2 * 2 ^ bitLength (n div 2)" by linarith
    then show ?thesis using False by (subst bitLength.simps) simp
  qed
qed

lemma bitLength_lower: "0 < a \<Longrightarrow> 2 ^ (bitLength a - 1) \<le> a"
proof (induction a rule: bitLength.induct)
  case (1 n)
  then have n0: "\<not> n \<le> 0" by simp
  have bl: "bitLength n = Suc (bitLength (n div 2))" using n0 by (subst bitLength.simps) simp
  show ?case
  proof (cases "n div 2 \<le> 0")
    case True
    then have "bitLength (n div 2) = 0" by (simp add: bitLength.simps)
    then show ?thesis using bl 1(2) by simp
  next
    case False
    then have h: "2 ^ (bitLength (n div 2) - 1) \<le> n div 2" using 1(1)[OF n0] by simp
    have pos: "0 < bitLength (n div 2)" using False by (subst bitLength.simps) simp
    have "2 * 2 ^ (bitLength (n div 2) - 1) \<le> n" using h by linarith
    moreover have "(2::int) * 2 ^ (bitLength (n div 2) - 1) = 2 ^ bitLength (n div 2)"
      using pos by (cases "bitLength (n div 2)") simp_all
    ultimately show ?thesis using bl by simp
  qed
qed

lemma roundDouble_exact:
  assumes "\<bar>x\<bar> < 2 ^ 53"
  shows "roundDouble x = x"
proof -
  have "bitLength \<bar>x\<bar> \<le> 53" using assms by (rule bitLength_le)
  then have "bitLength \<bar>x\<bar> - 53 = 0" by simp
  then have "roundDouble x = sgn x * \<bar>x\<bar>" by (simp add: roundDouble_def Let_def)
  then show ?thesis by (simp add: mult_sgn_abs)
qed

lemma roundDouble_large:
  assumes "2 ^ 53 \<le> x"
  shows "2 ^ 53 \<le> roundDouble x"
proof -
  define e where "e = bitLength \<bar>x\<bar> - 53"
  define q where "q = \<bar>x\<bar> div 2 ^ e"
  define m where "m = (if 2 * (\<bar>x\<bar> mod 2 ^ e) < 2 ^ e \<or> (2 * (\<bar>x\<bar> mod 2 ^ e) = 2 ^ e \<and> even q) then q else q + 1)"
  have x0: "0 < x" using assms by (rule less_le_trans[rotated]) simp
  then have ax: "\<bar>x\<bar> = x" by simp
  have L: "53 < bitLength x"
  proof (rule ccontr)
    assume "\<not> 53 < bitLength x"
    then have "bitLength x \<le> 53" by simp
    then have "(2::int) ^ bitLength x \<le> 2 ^ 53" by (intro power_increasing) simp_all
    then show False using bitLength_upper[of x] assms by linarith
  qed
  then have eL: "bitLength x - 1 = 52 + e" and e1: "1 \<le> e" by (simp_all add: e_def ax)
  have "(2::int) ^ (52 + e) \<le> x" using bitLength_lower[OF x0] eL by simp
  then have low: "2 ^ 52 * (2::int) ^ e \<le> x" by (simp only: power_add)
  have pe: "(0::int) < 2 ^ e" by simp
  have "2 ^ 52 \<le> q"
  proof -
    have "(2 ^ 52 * (2::int) ^ e) div 2 ^ e \<le> x div 2 ^ e" using low pe by (intro zdiv_mono1)
    then show ?thesis by (simp only: q_def ax) simp
  qed
  moreover have "q \<le> m" by (simp add: m_def)
  ultimately have "2 ^ 52 \<le> m" by linarith
  then have "2 ^ 52 * (2::int) ^ e \<le> m * 2 ^ e" using pe by (intro mult_right_mono) simp_all
  moreover have "(2::int) ^ 53 \<le> 2 ^ 52 * 2 ^ e"
  proof -
    have "(2::int) ^ 1 \<le> 2 ^ e" using e1 by (intro power_increasing) simp_all
    then have "2 ^ 52 * (2::int) ^ 1 \<le> 2 ^ 52 * 2 ^ e" by (intro mult_left_mono) simp_all
    then show ?thesis by simp
  qed
  ultimately have "(2::int) ^ 53 \<le> m * 2 ^ e" by linarith
  moreover have "sgn x = 1" using x0 by simp
  moreover have "roundDouble x = sgn x * (m * 2 ^ e)"
    by (simp only: roundDouble_def Let_def e_def[symmetric] q_def[symmetric] m_def[symmetric])
  ultimately show ?thesis by simp
qed

lemma createBatches_loop_stop:
  "\<not> i < t \<Longrightarrow> createBatches_loop t bs i acc = Some acc"
  by (subst createBatches_loop.simps) simp

lemma createBatches_loop_closed:
  assumes "1 \<le> bs" and "t \<le> 2 ^ 53"
  shows "createBatches_loop t bs (int j * bs) acc =
     Some (acc @ map (\<lambda>k. \<lparr>start = int k * bs, end_b = min (int k * bs + bs) t\<rparr>)
                   [j..<nat ((t + bs - 1) div bs)])"
proof (induction "nat ((t + bs - 1) div bs) - j" arbitrary: j acc)
  case 0
  then have "\<not> int j * bs < t" using ceil_div_less_iff[OF assms(1), of j t] by simp
  then show ?case using 0 by (simp add: createBatches_loop_stop)
next
  case (Suc d)
  let ?n = "nat ((t + bs - 1) div bs)"
  let ?s = "int j * bs + bs"
  have lt: "int j * bs < t" and jn: "j < ?n"
    using Suc ceil_div_less_iff[OF assms(1), of j t] by simp_all
  have step: "?s = int (Suc j) * bs" by (simp add: algebra_simps)
  have s0: "0 \<le> ?s" using assms(1) by simp
  have unfold: "createBatches_loop t bs (int j * bs) acc =
      createBatches_loop t bs (jsAdd (int j * bs) bs)
        (acc @ [\<lparr>start = int j * bs, end_b = min (jsAdd (int j * bs) bs) t\<rparr>])"
    by (subst createBatches_loop.simps) (simp only: lt if_True)
  show ?case
  proof (cases "?s < 2 ^ 53")
    case True
    then have "\<bar>?s\<bar> < 2 ^ 53" using s0 by simp
    then have exact: "jsAdd (int j * bs) bs = int (Suc j) * bs"
      unfolding jsAdd_def by (simp only: roundDouble_exact step)
    have "d = ?n - Suc j" using Suc(2) by simp
    from Suc(1)[OF this, of "acc @ [\<lparr>start = int j * bs, end_b = min (int (Suc j) * bs) t\<rparr>]"]
    show ?thesis
      unfolding unfold exact using jn by (simp add: step upt_conv_Cons del: of_nat_Suc)
  next
    case False
    then have big: "2 ^ 53 \<le> ?s" by simp
    then have "2 ^ 53 \<le> jsAdd (int j * bs) bs" unfolding jsAdd_def by (rule roundDouble_large)
    then have past: "t \<le> jsAdd (int j * bs) bs" using assms(2) by linarith
    have "\<not> int (Suc j) * bs < t" using big assms(2) step by linarith
    then have "\<not> Suc j < ?n" using ceil_div_less_iff[OF assms(1), of "Suc j" t] by simp
    then have "?n = Suc j" using jn by simp
    then have range: "[j..<?n] = [j]" by simp
    have "min (jsAdd (int j * bs) bs) t = t" "min ?s t = t" using past big assms(2) by simp_all
    then show ?thesis
      unfolding unfold using past by (simp add: createBatches_loop_stop range)
  qed
qed

lemma createBatches_eq_spec:
  "1 \<le> bs \<Longrightarrow> t \<le> 2 ^ 53 \<Longrightarrow> createBatches t bs = Some (scheduleByCount_spec t bs)"
  using createBatches_loop_closed[of bs t 0 "[]"]
  by (simp add: createBatches_def scheduleByCount_spec_def)

lemma spec_length: "length (scheduleByCount_spec t bs) = nat ((t + bs - 1) div bs)"
  by (simp add: scheduleByCount_spec_def)

lemma spec_nth:
  "k < length (scheduleByCount_spec t bs) \<Longrightarrow>
   scheduleByCount_spec t bs ! k = \<lparr>start = int k * bs, end_b = min (int k * bs + bs) t\<rparr>"
  by (simp add: scheduleByCount_spec_def)

lemma spec_start_lt:
  "1 \<le> bs \<Longrightarrow> k < length (scheduleByCount_spec t bs) \<Longrightarrow> int k * bs < t"
  by (simp add: spec_length ceil_div_less_iff)

lemma spec_nonempty_range:
  assumes "1 \<le> bs" "k < length (scheduleByCount_spec t bs)"
  shows "start (scheduleByCount_spec t bs ! k) < end_b (scheduleByCount_spec t bs ! k)"
  using spec_start_lt[OF assms] assms by (simp add: spec_nth)

lemma spec_full_range:
  assumes "1 \<le> bs" "Suc k < length (scheduleByCount_spec t bs)"
  shows "end_b (scheduleByCount_spec t bs ! k) = int k * bs + bs"
proof -
  have "int (Suc k) * bs < t" using spec_start_lt[OF assms] .
  then have "int k * bs + bs < t" by (simp add: algebra_simps)
  then show ?thesis using assms by (simp add: spec_nth)
qed

lemma spec_contiguous:
  assumes "1 \<le> bs" "Suc k < length (scheduleByCount_spec t bs)"
  shows "end_b (scheduleByCount_spec t bs ! k) = start (scheduleByCount_spec t bs ! Suc k)"
  using spec_full_range[OF assms] assms by (simp add: spec_nth algebra_simps)

lemma spec_last_end:
  assumes "1 \<le> bs" "scheduleByCount_spec t bs \<noteq> []"
  shows "end_b (last (scheduleByCount_spec t bs)) = t"
proof -
  let ?n = "length (scheduleByCount_spec t bs)"
  obtain m where m: "?n = Suc m" using assms(2) by (cases ?n) simp_all
  have "\<not> int (Suc m) * bs < t"
    using ceil_div_less_iff[OF assms(1), of "Suc m" t] m by (simp add: spec_length)
  then have "t \<le> int m * bs + bs" by (simp add: algebra_simps)
  then show ?thesis using m assms(2) by (simp add: last_conv_nth spec_nth)
qed

lemma spec_cover:
  assumes "1 \<le> bs" "0 \<le> x" "x < t"
  shows "\<exists>!k. k < length (scheduleByCount_spec t bs) \<and>
           start (scheduleByCount_spec t bs ! k) \<le> x \<and> x < end_b (scheduleByCount_spec t bs ! k)"
proof (rule ex1I[of _ "nat (x div bs)"])
  let ?k = "nat (x div bs)"
  have k: "int ?k = x div bs" using assms by (simp add: pos_imp_zdiv_nonneg_iff)
  have dm: "x = x div bs * bs + x mod bs" by simp
  have md: "0 \<le> x mod bs" "x mod bs < bs" using assms(1) by simp_all
  have le: "int ?k * bs \<le> x" unfolding k using dm md by linarith
  have lt: "x < int ?k * bs + bs" unfolding k using dm md by linarith
  have "int ?k * bs < t" using le assms(3) by simp
  then have len: "?k < length (scheduleByCount_spec t bs)"
    using ceil_div_less_iff[OF assms(1), of ?k t] by (simp add: spec_length)
  show "?k < length (scheduleByCount_spec t bs) \<and>
        start (scheduleByCount_spec t bs ! ?k) \<le> x \<and> x < end_b (scheduleByCount_spec t bs ! ?k)"
    using len le lt assms(3) by (simp add: spec_nth)
next
  fix k assume a: "k < length (scheduleByCount_spec t bs) \<and>
           start (scheduleByCount_spec t bs ! k) \<le> x \<and> x < end_b (scheduleByCount_spec t bs ! k)"
  then have kl: "k < length (scheduleByCount_spec t bs)" by simp
  have "int k * bs \<le> x" "x < int k * bs + bs" using a by (simp_all add: spec_nth[OF kl])
  then have "x div bs = int k"
    using assms(1) by (intro int_div_pos_eq[of x bs "int k" "x - int k * bs"]) (simp_all add: algebra_simps)
  then show "k = nat (x div bs)" by simp
qed

lemma spec_last_length:
  assumes "1 \<le> bs" "scheduleByCount_spec t bs \<noteq> []"
  shows "end_b (last (scheduleByCount_spec t bs)) - start (last (scheduleByCount_spec t bs))
           = (if t mod bs = 0 then bs else t mod bs)"
proof -
  let ?n = "length (scheduleByCount_spec t bs)"
  obtain m where m: "?n = Suc m" using assms(2) by (cases ?n) simp_all
  define L where "L = t - int m * bs"
  have "int m * bs < t" using spec_start_lt[OF assms(1), of m t] m by simp
  then have L0: "0 < L" by (simp add: L_def)
  have "\<not> int (Suc m) * bs < t"
    using ceil_div_less_iff[OF assms(1), of "Suc m" t] m by (simp add: spec_length)
  then have Lb: "L \<le> bs" by (simp add: L_def algebra_simps)
  have "t = L + int m * bs" by (simp add: L_def)
  then have "t mod bs = L mod bs" by (metis mod_mult_self1)
  then have md: "t mod bs = (if L = bs then 0 else L)" using L0 Lb by auto
  have "start (last (scheduleByCount_spec t bs)) = int m * bs"
    using m assms(2) by (simp add: last_conv_nth spec_nth)
  then have "end_b (last (scheduleByCount_spec t bs)) - start (last (scheduleByCount_spec t bs)) = L"
    using spec_last_end[OF assms] by (simp add: L_def)
  then show ?thesis using md L0 by auto
qed

text \<open>
  C2, as amended. For \<open>0 \<le> total \<le> 2^53\<close> and \<open>chunkSize \<ge> 1\<close>, \<open>createBatches\<close>
  returns, and returns the ranges \<open>[i, min(i + chunkSize, total))\<close> for \<open>i\<close> stepping by
  \<open>chunkSize\<close> from 0. Every range is non-empty and lies in \<open>[0, total)\<close>; each range
  but the last has length \<open>chunkSize\<close> and ends where the next one starts; every index
  of \<open>[0, total)\<close> lies in exactly one range; the last range has length
  \<open>total mod chunkSize\<close>, or \<open>chunkSize\<close> when that is 0; and \<open>total = 0\<close> gives no
  range. Up to \<open>2^53\<close> every sum of the loop is exact or lies past the total.
\<close>

theorem createBatches_ranges:
  assumes "0 \<le> total_n" and "1 \<le> batchSize" and "total_n \<le> 2 ^ 53"
  shows "\<exists>batches. createBatches total_n batchSize = Some batches
     \<and> batches = scheduleByCount_spec total_n batchSize
     \<and> (\<forall>k. k < length batches \<longrightarrow>
            0 \<le> start (batches ! k) \<and> start (batches ! k) < end_b (batches ! k)
            \<and> end_b (batches ! k) \<le> total_n)
     \<and> (\<forall>k. Suc k < length batches \<longrightarrow>
            end_b (batches ! k) = start (batches ! Suc k)
            \<and> end_b (batches ! k) - start (batches ! k) = batchSize)
     \<and> (\<forall>x. 0 \<le> x \<and> x < total_n \<longrightarrow>
            (\<exists>!k. k < length batches \<and> start (batches ! k) \<le> x \<and> x < end_b (batches ! k)))
     \<and> (batches \<noteq> [] \<longrightarrow>
            start (hd batches) = 0 \<and> end_b (last batches) = total_n
            \<and> end_b (last batches) - start (last batches)
                = (if total_n mod batchSize = 0 then batchSize else total_n mod batchSize))
     \<and> (total_n = 0 \<longrightarrow> batches = [])"
proof -
  let ?bs = "scheduleByCount_spec total_n batchSize"
  have run: "createBatches total_n batchSize = Some ?bs"
    using assms(2) assms(3) by (rule createBatches_eq_spec)
  have inside: "\<forall>k. k < length ?bs \<longrightarrow>
      0 \<le> start (?bs ! k) \<and> start (?bs ! k) < end_b (?bs ! k) \<and> end_b (?bs ! k) \<le> total_n"
  proof (intro allI impI)
    fix k assume k: "k < length ?bs"
    have "0 \<le> int k * batchSize" using assms(2) by simp
    then have "0 \<le> start (?bs ! k)" "end_b (?bs ! k) \<le> total_n" using k by (simp_all add: spec_nth)
    then show "0 \<le> start (?bs ! k) \<and> start (?bs ! k) < end_b (?bs ! k) \<and> end_b (?bs ! k) \<le> total_n"
      using spec_nonempty_range[OF assms(2) k] by simp
  qed
  have contiguous: "\<forall>k. Suc k < length ?bs \<longrightarrow>
      end_b (?bs ! k) = start (?bs ! Suc k) \<and> end_b (?bs ! k) - start (?bs ! k) = batchSize"
  proof (intro allI impI)
    fix k assume k: "Suc k < length ?bs"
    then have "start (?bs ! k) = int k * batchSize" by (simp add: spec_nth)
    then show "end_b (?bs ! k) = start (?bs ! Suc k) \<and> end_b (?bs ! k) - start (?bs ! k) = batchSize"
      using spec_contiguous[OF assms(2) k] spec_full_range[OF assms(2) k] by simp
  qed
  have cover: "\<forall>x. 0 \<le> x \<and> x < total_n \<longrightarrow>
      (\<exists>!k. k < length ?bs \<and> start (?bs ! k) \<le> x \<and> x < end_b (?bs ! k))"
    using spec_cover[OF assms(2)] by blast
  have ends: "?bs \<noteq> [] \<longrightarrow>
      start (hd ?bs) = 0 \<and> end_b (last ?bs) = total_n
      \<and> end_b (last ?bs) - start (last ?bs)
          = (if total_n mod batchSize = 0 then batchSize else total_n mod batchSize)"
  proof
    assume ne: "?bs \<noteq> []"
    then have "start (hd ?bs) = 0" by (simp add: hd_conv_nth spec_nth)
    then show "start (hd ?bs) = 0 \<and> end_b (last ?bs) = total_n
      \<and> end_b (last ?bs) - start (last ?bs)
          = (if total_n mod batchSize = 0 then batchSize else total_n mod batchSize)"
      using spec_last_end[OF assms(2) ne] spec_last_length[OF assms(2) ne] by simp
  qed
  have none: "total_n = 0 \<longrightarrow> ?bs = []"
    using assms(2) by (simp add: scheduleByCount_spec_def)
  show ?thesis
    using run inside contiguous cover ends none by blast
qed

theorem createBatches_ranges_witness:
  "(0::int) \<le> 5 \<and> (1::int) \<le> 2 \<and> (5::int) \<le> 2 ^ 53 \<and>
   createBatches 5 2 =
     Some [\<lparr>start = 0, end_b = 2\<rparr>, \<lparr>start = 2, end_b = 4\<rparr>, \<lparr>start = 4, end_b = 5\<rparr>]"
proof -
  have h: "(0::int) \<le> 5" "(1::int) \<le> 2" "(5::int) \<le> 2 ^ 53" by simp_all
  from createBatches_ranges [OF h]
  have "createBatches 5 2 = Some (scheduleByCount_spec 5 2)" by blast
  then show ?thesis using h by (simp add: scheduleByCount_spec_def upt_rec)
qed

text \<open>
  The claim C2 as it was stated, for every \<open>total \<ge> 0\<close>, fails beyond \<open>2^53\<close>, where
  the sums of the loop are rounded. With the total 14725505404367672 and the chunk size
  2655307041171301 the fifth sum, 13276535205856505, is no double and becomes
  13276535205856504: the fifth range is one short of the chunk size, the sixth starts
  one below the fifth multiple of the chunk size, and the last range has the length
  1448970198511168, while \<open>total mod chunkSize\<close> is 1448970198511167.
\<close>

theorem createBatches_rounding_counterexample:
  "createBatches 14725505404367672 2655307041171301 =
     Some [\<lparr>start = 0, end_b = 2655307041171301\<rparr>,
           \<lparr>start = 2655307041171301, end_b = 5310614082342602\<rparr>,
           \<lparr>start = 5310614082342602, end_b = 7965921123513903\<rparr>,
           \<lparr>start = 7965921123513903, end_b = 10621228164685204\<rparr>,
           \<lparr>start = 10621228164685204, end_b = 13276535205856504\<rparr>,
           \<lparr>start = 13276535205856504, end_b = 14725505404367672\<rparr>]
   \<and> (14725505404367672 :: int) - 13276535205856504 = 1448970198511168
   \<and> (14725505404367672 :: int) mod 2655307041171301 = 1448970198511167
   \<and> (10621228164685204 :: int) + 2655307041171301 = 13276535205856505"
  by code_simp

section \<open>Properties of getStatistics\<close>

text \<open>
  C8. \<open>getStatistics\<close> returns the number of records as \<open>total\<close>, the number of
  records whose name has no \<open>.\<close> as \<open>topLevel\<close>, the number whose name has one as
  \<open>subdomains\<close>, the number whose \<open>did\<close> is not empty as \<open>withDID\<close> and the number
  that allow subdomains as \<open>allowingSubdomains\<close>. The numbers are counted over the
  positions of the list. In particular, 4 records of which 2 have a \<open>.\<close> in the
  name, 3 a \<open>did\<close> and 1 allows subdomains give \<open>{4, 2, 2, 3, 1}\<close>.
\<close>

theorem getStatistics_counts:
  "total_s (getStatistics ds) = length ds
   \<and> topLevel (getStatistics ds) = card {i. i < length ds \<and> CHR ''.'' \<notin> set (name (ds ! i))}
   \<and> subdomains_s (getStatistics ds) = card {i. i < length ds \<and> CHR ''.'' \<in> set (name (ds ! i))}
   \<and> withDID (getStatistics ds) = card {i. i < length ds \<and> did (ds ! i) \<noteq> []}
   \<and> allowingSubdomains (getStatistics ds) = card {i. i < length ds \<and> allowSubdomain (ds ! i)}
   \<and> (length ds = 4
        \<and> card {i. i < length ds \<and> CHR ''.'' \<in> set (name (ds ! i))} = 2
        \<and> card {i. i < length ds \<and> did (ds ! i) \<noteq> []} = 3
        \<and> card {i. i < length ds \<and> allowSubdomain (ds ! i)} = 1
      \<longrightarrow> getStatistics ds =
            \<lparr>total_s = 4, topLevel = 2, subdomains_s = 2, withDID = 3, allowingSubdomains = 1\<rparr>)"
proof -
  have split_total:
    "length (filter (\<lambda>d. CHR ''.'' \<notin> set (name d)) ds)
       + length (filter (\<lambda>d. CHR ''.'' \<in> set (name d)) ds) = length ds"
    using sum_length_filter_compl[of "\<lambda>d. CHR ''.'' \<notin> set (name d)" ds] by simp
  have c: "\<And>P. length (filter P ds) = card {i. i < length ds \<and> P (ds ! i)}"
    by (rule length_filter_conv_card)
  have t: "total_s (getStatistics ds) = length ds" by (simp add: getStatistics_def)
  have tl: "topLevel (getStatistics ds) = card {i. i < length ds \<and> CHR ''.'' \<notin> set (name (ds ! i))}"
    unfolding getStatistics_def by (simp add: c)
  have sd: "subdomains_s (getStatistics ds) = card {i. i < length ds \<and> CHR ''.'' \<in> set (name (ds ! i))}"
    unfolding getStatistics_def by (simp add: c)
  have wd: "withDID (getStatistics ds) = card {i. i < length ds \<and> did (ds ! i) \<noteq> []}"
    unfolding getStatistics_def by (simp add: c)
  have al: "allowingSubdomains (getStatistics ds) = card {i. i < length ds \<and> allowSubdomain (ds ! i)}"
    unfolding getStatistics_def by (simp add: c)
  have sum: "topLevel (getStatistics ds) + subdomains_s (getStatistics ds) = length ds"
    using split_total by (simp add: getStatistics_def)
  have inst: "length ds = 4
        \<and> card {i. i < length ds \<and> CHR ''.'' \<in> set (name (ds ! i))} = 2
        \<and> card {i. i < length ds \<and> did (ds ! i) \<noteq> []} = 3
        \<and> card {i. i < length ds \<and> allowSubdomain (ds ! i)} = 1
      \<longrightarrow> getStatistics ds =
            \<lparr>total_s = 4, topLevel = 2, subdomains_s = 2, withDID = 3, allowingSubdomains = 1\<rparr>"
  proof
    assume h: "length ds = 4
        \<and> card {i. i < length ds \<and> CHR ''.'' \<in> set (name (ds ! i))} = 2
        \<and> card {i. i < length ds \<and> did (ds ! i) \<noteq> []} = 3
        \<and> card {i. i < length ds \<and> allowSubdomain (ds ! i)} = 1"
    from h have h0: "length ds = 4" by blast
    from h have h1: "card {i. i < length ds \<and> CHR ''.'' \<in> set (name (ds ! i))} = 2" by blast
    from h have h2: "card {i. i < length ds \<and> did (ds ! i) \<noteq> []} = 3" by blast
    from h have h3: "card {i. i < length ds \<and> allowSubdomain (ds ! i)} = 1" by blast
    have "total_s (getStatistics ds) = 4" using h0 t by simp
    moreover have s2: "subdomains_s (getStatistics ds) = 2" using h1 sd by simp
    moreover have "topLevel (getStatistics ds) = 2" using sum s2 h0 by simp
    moreover have "withDID (getStatistics ds) = 3" using h2 wd by simp
    moreover have "allowingSubdomains (getStatistics ds) = 1" using h3 al by simp
    ultimately show "getStatistics ds =
            \<lparr>total_s = 4, topLevel = 2, subdomains_s = 2, withDID = 3, allowingSubdomains = 1\<rparr>"
      by (cases "getStatistics ds") simp
  qed
  show ?thesis using t tl sd wd al inst by blast
qed

theorem getStatistics_counts_witness:
  "getStatistics
     [\<lparr>id_d = ''1'', name = ''org'', did = ''did:a'', note_d = [], allowSubdomain = True,
        owner = ''0x1'', subdomains = []\<rparr>,
      \<lparr>id_d = ''2'', name = ''com'', did = [], note_d = [], allowSubdomain = False,
        owner = ''0x2'', subdomains = []\<rparr>,
      \<lparr>id_d = ''3'', name = ''a.org'', did = ''did:b'', note_d = [], allowSubdomain = False,
        owner = ''0x3'', subdomains = []\<rparr>,
      \<lparr>id_d = ''4'', name = ''b.a.org'', did = ''did:c'', note_d = [], allowSubdomain = False,
        owner = ''0x4'', subdomains = []\<rparr>]
   = \<lparr>total_s = 4, topLevel = 2, subdomains_s = 2, withDID = 3, allowingSubdomains = 1\<rparr>"
  (is "getStatistics ?ds = ?st")
proof -
  note t = getStatistics_counts [of ?ds]
  have "card {i. i < length ?ds \<and> CHR ''.'' \<in> set (name (?ds ! i))} = subdomains_s (getStatistics ?ds)"
    using t by (elim conjE) (rule sym)
  then have c1: "card {i. i < length ?ds \<and> CHR ''.'' \<in> set (name (?ds ! i))} = 2"
    by (simp add: getStatistics_def)
  have "card {i. i < length ?ds \<and> did (?ds ! i) \<noteq> []} = withDID (getStatistics ?ds)"
    using t by (elim conjE) (rule sym)
  then have c2: "card {i. i < length ?ds \<and> did (?ds ! i) \<noteq> []} = 3"
    by (simp add: getStatistics_def)
  have "card {i. i < length ?ds \<and> allowSubdomain (?ds ! i)} = allowingSubdomains (getStatistics ?ds)"
    using t by (elim conjE) (rule sym)
  then have c3: "card {i. i < length ?ds \<and> allowSubdomain (?ds ! i)} = 1"
    by (simp add: getStatistics_def)
  have c0: "length ?ds = 4" by simp
  from t have "length ?ds = 4
        \<and> card {i. i < length ?ds \<and> CHR ''.'' \<in> set (name (?ds ! i))} = 2
        \<and> card {i. i < length ?ds \<and> did (?ds ! i) \<noteq> []} = 3
        \<and> card {i. i < length ?ds \<and> allowSubdomain (?ds ! i)} = 1
      \<longrightarrow> getStatistics ?ds = ?st" by (elim conjE)
  with c0 c1 c2 c3 show ?thesis by blast
qed

section \<open>Array.prototype.slice and Promise.all\<close>

lemma drop_clamped: "0 \<le> i \<Longrightarrow> drop (nat (min i (int (length xs)))) xs = drop (nat i) xs"
  by (cases "i \<le> int (length xs)") (simp_all add: min_def)

lemma jsSlice_window:
  assumes "0 \<le> i" "0 \<le> c"
  shows "jsSlice xs i (i + c) = take (nat c) (drop (nat i) xs)"
proof -
  let ?n = "int (length xs)"
  have "take (nat (min (i + c) ?n - min i ?n)) (drop (nat i) xs) = take (nat c) (drop (nat i) xs)"
  proof (cases "i + c \<le> ?n")
    case True
    then have "min (i + c) ?n - min i ?n = c" using assms by simp
    then show ?thesis by simp
  next
    case False
    then have "length (drop (nat i) xs) \<le> nat c" using assms by simp
    moreover have "length (drop (nat i) xs) \<le> nat (min (i + c) ?n - min i ?n)"
      using assms False by (auto simp: min_def nat_diff_distrib)
    ultimately show ?thesis by simp
  qed
  then show ?thesis using assms by (simp add: jsSlice_def Let_def drop_clamped)
qed

lemma jsSlice_empty_window: "jsSlice xs i i = []"
  by (simp add: jsSlice_def Let_def)

lemma jsSlice_negative:
  assumes "i < 0" "c \<le> 0"
  shows "jsSlice xs i (i + c) = []"
  using assms by (auto simp: jsSlice_def Let_def max_def)

lemma firstRejected_None_iff:
  "firstRejected ps = None \<longleftrightarrow> (\<forall>p \<in> set ps. \<not> isl (snd p))"
  by (induction ps rule: firstRejected.induct) (auto split: option.splits)

lemma firstRejected_Some:
  "firstRejected ps = Some (t, e) \<Longrightarrow>
     (t, Inl e) \<in> set ps \<and> (\<forall>t' e'. (t', Inl e') \<in> set ps \<longrightarrow> t \<le> t')"
proof (induction ps arbitrary: t e rule: firstRejected.induct)
  case 1
  then show ?case by simp
next
  case (2 a v ps)
  then show ?case by auto
next
  case (3 a x ps)
  show ?case
  proof (cases "firstRejected ps")
    case None
    then have "\<forall>p \<in> set ps. \<not> isl (snd p)" by (simp add: firstRejected_None_iff)
    then have "\<And>t' e'. (t', Inl e') \<notin> set ps" by force
    then show ?thesis using 3(2) None by auto
  next
    case (Some r)
    obtain t1 e1 where r: "r = (t1, e1)" by (cases r)
    have ih: "(t1, Inl e1) \<in> set ps \<and> (\<forall>t' e'. (t', Inl e') \<in> set ps \<longrightarrow> t1 \<le> t')"
      using 3(1)[of t1 e1] Some r by simp
    show ?thesis
    proof (cases "t1 < a")
      case True
      then have "t = t1" "e = e1" using 3(2) Some r by simp_all
      then show ?thesis using ih True by auto
    next
      case False
      then have "t = a" "e = x" using 3(2) Some r by simp_all
      then show ?thesis using ih False by fastforce
    qed
  qed
qed

lemma map_filter_fulfilled:
  "\<forall>x \<in> set xs. snd (fn x) = Inr (g x) \<Longrightarrow>
   List.map_filter (\<lambda>(at, out). case out of Inr v \<Rightarrow> Some v | Inl e \<Rightarrow> None) (map fn xs) = map g xs"
  by (induction xs) (auto simp: List.map_filter_simps split: prod.splits)

lemma promiseAll_fulfilled:
  assumes "\<forall>x \<in> set xs. snd (fn x) = Inr (g x)"
  shows "promiseAll (map fn xs) = Inr (map g xs)"
proof -
  have "firstRejected (map fn xs) = None"
    using assms by (auto simp: firstRejected_None_iff)
  then show ?thesis using assms by (simp add: promiseAll_def map_filter_fulfilled)
qed

lemma promiseAll_rejected:
  assumes "\<exists>x \<in> set xs. isl (snd (fn x))"
  shows "\<exists>e u. promiseAll (map fn xs) = Inl e \<and> u \<in> set xs \<and> snd (fn u) = Inl e
           \<and> (\<forall>u' \<in> set xs. isl (snd (fn u')) \<longrightarrow> fst (fn u) \<le> fst (fn u'))"
proof -
  have "firstRejected (map fn xs) \<noteq> None"
    using assms by (auto simp: firstRejected_None_iff)
  then obtain t e where fr: "firstRejected (map fn xs) = Some (t, e)" by auto
  from firstRejected_Some[OF fr]
  have mem: "(t, Inl e) \<in> set (map fn xs)"
    and least: "\<forall>t' e'. (t', Inl e') \<in> set (map fn xs) \<longrightarrow> t \<le> t'" by simp_all
  from mem obtain u where u: "u \<in> set xs" "fn u = (t, Inl e)" by auto
  have "\<forall>u' \<in> set xs. isl (snd (fn u')) \<longrightarrow> fst (fn u) \<le> fst (fn u')"
  proof (intro ballI impI)
    fix u' assume u': "u' \<in> set xs" "isl (snd (fn u'))"
    then obtain e' where "snd (fn u') = Inl e'" by (cases "snd (fn u')") simp_all
    then have "fn u' = (fst (fn u'), Inl e')" by (cases "fn u'") simp
    then have "(fst (fn u'), Inl e') \<in> set (map fn xs)" using u'(1) by force
    then have "t \<le> fst (fn u')" using least by blast
    then show "fst (fn u) \<le> fst (fn u')" using u(2) by simp
  qed
  then show ?thesis using fr u by (auto simp: promiseAll_def)
qed

section \<open>Properties of concurrentMap\<close>

lemma concurrentMap_loop_step:
  assumes "1 \<le> c" and "i < length items"
  shows "concurrentMap_loop items fn c (int i) results started =
     (case promiseAll (map fn (take (nat c) (drop i items))) of
        Inl e \<Rightarrow> Some (Inl e, started @ take (nat c) (drop i items))
      | Inr chunkResults \<Rightarrow>
          concurrentMap_loop items fn c (int (i + nat c))
            (results @ chunkResults) (started @ take (nat c) (drop i items)))"
proof -
  have slice: "jsSlice items (int i) (int i + c) = take (nat c) (drop i items)"
    using assms(1) jsSlice_window[of "int i" c items] by simp
  have il: "int i < int (length items)" using assms(2) by simp
  have next_i: "int i + c = int (i + nat c)" using assms(1) by simp
  have slice': "jsSlice items (int i) (int (i + nat c)) = take (nat c) (drop i items)"
    using slice by (simp only: next_i)
  show ?thesis
    by (subst concurrentMap_loop.simps) (simp only: il if_True Let_def next_i slice')
qed

lemma concurrentMap_loop_done:
  "\<not> i < int (length items) \<Longrightarrow>
   concurrentMap_loop items fn c i results started = Some (Inr results, started)"
  by (subst concurrentMap_loop.simps) simp

lemma concurrentMap_loop_fulfilled:
  assumes "1 \<le> c" and "\<forall>x \<in> set items. snd (fn x) = Inr (g x)"
  shows "concurrentMap_loop items fn c (int i) results started =
           Some (Inr (results @ map g (drop i items)), started @ drop i items)"
proof (induction "length items - i" arbitrary: i results started rule: less_induct)
  case less
  show ?case
  proof (cases "i < length items")
    case False
    then show ?thesis by (simp add: concurrentMap_loop_done)
  next
    case True
    let ?chunk = "take (nat c) (drop i items)"
    have "set ?chunk \<subseteq> set items"
      by (meson set_drop_subset set_take_subset subset_trans)
    then have all: "promiseAll (map fn ?chunk) = Inr (map g ?chunk)"
      using assms(2) by (intro promiseAll_fulfilled) blast
    have "length items - (i + nat c) < length items - i" using True assms(1) by simp
    from less[OF this]
    have ih: "concurrentMap_loop items fn c (int (i + nat c)) (results @ map g ?chunk) (started @ ?chunk) =
        Some (Inr ((results @ map g ?chunk) @ map g (drop (i + nat c) items)),
              (started @ ?chunk) @ drop (i + nat c) items)" .
    have join: "?chunk @ drop (i + nat c) items = drop i items"
      by (metis add.commute append_take_drop_id drop_drop)
    then have join_g: "map g ?chunk @ map g (drop (i + nat c) items) = map g (drop i items)"
      by (metis map_append)
    have "concurrentMap_loop items fn c (int i) results started =
        concurrentMap_loop items fn c (int (i + nat c)) (results @ map g ?chunk) (started @ ?chunk)"
      by (simp only: concurrentMap_loop_step[OF assms(1) True] all sum.case)
    also have "\<dots> = Some (Inr (results @ map g ?chunk @ map g (drop (i + nat c) items)),
              started @ ?chunk @ drop (i + nat c) items)"
      by (simp only: ih append_assoc)
    finally show ?thesis by (simp only: join join_g)
  qed
qed

lemma set_window:
  "u \<in> set (take n (drop i xs)) \<longleftrightarrow> (\<exists>j. i \<le> j \<and> j < i + n \<and> j < length xs \<and> u = xs ! j)"
proof
  assume "u \<in> set (take n (drop i xs))"
  then obtain m where m: "m < length (take n (drop i xs))" "u = take n (drop i xs) ! m"
    by (auto simp: in_set_conv_nth)
  then have "i \<le> i + m \<and> i + m < i + n \<and> i + m < length xs \<and> u = xs ! (i + m)" by auto
  then show "\<exists>j. i \<le> j \<and> j < i + n \<and> j < length xs \<and> u = xs ! j" by blast
next
  assume "\<exists>j. i \<le> j \<and> j < i + n \<and> j < length xs \<and> u = xs ! j"
  then obtain j where j: "i \<le> j" "j < i + n" "j < length xs" "u = xs ! j" by blast
  then have "j - i < length (take n (drop i xs))" "take n (drop i xs) ! (j - i) = u" by auto
  then show "u \<in> set (take n (drop i xs))" by (metis nth_mem)
qed

lemma concurrentMap_loop_rejected:
  assumes "1 \<le> c" and "k < length items" and "isl (snd (fn (items ! k)))"
  shows "i \<le> k \<Longrightarrow> (\<forall>j. i \<le> j \<and> j < k \<longrightarrow> \<not> isl (snd (fn (items ! j)))) \<Longrightarrow>
     \<exists>e j. concurrentMap_loop items fn c (int i) results started =
              Some (Inl e, started @ take (((k - i) div nat c + 1) * nat c) (drop i items))
       \<and> i + (k - i) div nat c * nat c \<le> j \<and> j < i + ((k - i) div nat c + 1) * nat c
       \<and> j < length items \<and> snd (fn (items ! j)) = Inl e
       \<and> (\<forall>j'. i + (k - i) div nat c * nat c \<le> j' \<and> j' < i + ((k - i) div nat c + 1) * nat c
              \<and> j' < length items \<and> isl (snd (fn (items ! j')))
            \<longrightarrow> fst (fn (items ! j)) \<le> fst (fn (items ! j')))"
proof (induction "k - i" arbitrary: i results started rule: less_induct)
  case less
  let ?n = "nat c"
  let ?chunk = "take ?n (drop i items)"
  have n0: "0 < ?n" using assms(1) by simp
  have il: "i < length items" using less.prems(1) assms(2) by simp
  show ?case
  proof (cases "k < i + ?n")
    case True
    then have "k - i < ?n" using less.prems(1) by linarith
    then have q: "(k - i) div ?n = 0" by simp
    have "items ! k \<in> set ?chunk" using True less.prems(1) assms(2) by (auto simp: set_window)
    then have "\<exists>x \<in> set ?chunk. isl (snd (fn x))" using assms(3) by blast
    from promiseAll_rejected[OF this] obtain e u where
      pa: "promiseAll (map fn ?chunk) = Inl e" and u: "u \<in> set ?chunk" "snd (fn u) = Inl e"
      and least: "\<forall>u' \<in> set ?chunk. isl (snd (fn u')) \<longrightarrow> fst (fn u) \<le> fst (fn u')" by blast
    from u(1) obtain j where j: "i \<le> j" "j < i + ?n" "j < length items" "u = items ! j"
      by (auto simp: set_window)
    have run: "concurrentMap_loop items fn c (int i) results started = Some (Inl e, started @ ?chunk)"
      by (simp only: concurrentMap_loop_step[OF assms(1) il] pa sum.case)
    have "\<forall>j'. i \<le> j' \<and> j' < i + ?n \<and> j' < length items \<and> isl (snd (fn (items ! j')))
            \<longrightarrow> fst (fn (items ! j)) \<le> fst (fn (items ! j'))"
    proof (intro allI impI)
      fix j' assume a: "i \<le> j' \<and> j' < i + ?n \<and> j' < length items \<and> isl (snd (fn (items ! j')))"
      then have "items ! j' \<in> set ?chunk" unfolding set_window by blast
      then show "fst (fn (items ! j)) \<le> fst (fn (items ! j'))" using least a j(4) by blast
    qed
    then show ?thesis using run j u(2) by (auto simp: q)
  next
    case False
    define g where "g = (\<lambda>x. projr (snd (fn x)))"
    have "\<forall>x \<in> set ?chunk. snd (fn x) = Inr (g x)"
    proof
      fix x assume "x \<in> set ?chunk"
      then obtain j where j: "i \<le> j" "j < i + ?n" "x = items ! j" by (auto simp: set_window)
      then have "\<not> isl (snd (fn x))" using less.prems(2) False by simp
      then show "snd (fn x) = Inr (g x)" by (simp add: g_def)
    qed
    then have all: "promiseAll (map fn ?chunk) = Inr (map g ?chunk)" by (rule promiseAll_fulfilled)
    have step: "concurrentMap_loop items fn c (int i) results started =
        concurrentMap_loop items fn c (int (i + ?n)) (results @ map g ?chunk) (started @ ?chunk)"
      by (simp only: concurrentMap_loop_step[OF assms(1) il] all sum.case)
    have le: "i + ?n \<le> k" using False by simp
    have dec: "k - (i + ?n) < k - i" using le n0 by simp
    have rest: "\<forall>j. i + ?n \<le> j \<and> j < k \<longrightarrow> \<not> isl (snd (fn (items ! j)))"
      using less.prems(2) by simp
    have q: "(k - i) div ?n = Suc ((k - (i + ?n)) div ?n)"
      using le_div_geq[of ?n "k - i"] n0 le by simp
    let ?q = "(k - (i + ?n)) div ?n"
    from less.hyps[OF dec le rest, of "results @ map g ?chunk" "started @ ?chunk"]
    obtain e j where
      run: "concurrentMap_loop items fn c (int (i + ?n)) (results @ map g ?chunk) (started @ ?chunk) =
              Some (Inl e, (started @ ?chunk) @ take ((?q + 1) * ?n) (drop (i + ?n) items))"
      and j: "i + ?n + ?q * ?n \<le> j" "j < i + ?n + (?q + 1) * ?n" "j < length items"
             "snd (fn (items ! j)) = Inl e"
      and least: "\<forall>j'. i + ?n + ?q * ?n \<le> j' \<and> j' < i + ?n + (?q + 1) * ?n
              \<and> j' < length items \<and> isl (snd (fn (items ! j')))
            \<longrightarrow> fst (fn (items ! j)) \<le> fst (fn (items ! j'))"
      by blast
    have "take (?n + (?q + 1) * ?n) (drop i items) = ?chunk @ take ((?q + 1) * ?n) (drop (i + ?n) items)"
      by (simp add: take_add add.commute)
    then have started: "(started @ ?chunk) @ take ((?q + 1) * ?n) (drop (i + ?n) items)
        = started @ take (((k - i) div ?n + 1) * ?n) (drop i items)"
      by (simp add: q add.commute)
    have off1: "i + (k - i) div ?n * ?n = i + ?n + ?q * ?n" by (simp add: q)
    have off2: "i + ((k - i) div ?n + 1) * ?n = i + ?n + (?q + 1) * ?n" by (simp add: q)
    have "concurrentMap_loop items fn c (int i) results started =
        Some (Inl e, started @ take (((k - i) div ?n + 1) * ?n) (drop i items))"
      by (simp only: step run started)
    then show ?thesis
      unfolding off1 off2 using j least by blast
  qed
qed

text \<open>
  C1. When every unit of the input is fulfilled and the concurrency is at least 1,
  \<open>concurrentMap\<close> returns a list as long as the input whose \<open>k\<close>-th element is the
  value of the worker on the \<open>k\<close>-th unit: the plain map of the worker over the
  input. The list is the same for every concurrency from 1 on, and for every order in
  which the units of a window settle. Every unit is started, in input order.
\<close>

theorem concurrentMap_preserves_order:
  assumes "1 \<le> concurrency" and "\<forall>x \<in> set items. snd (fn x) = Inr (g x)"
  shows "\<exists>results. concurrentMap items fn concurrency = Some (Inr results, items)
     \<and> results = map g items
     \<and> length results = length items
     \<and> (\<forall>k. k < length items \<longrightarrow> results ! k = g (items ! k))
     \<and> (\<forall>c'. 1 \<le> c' \<longrightarrow> concurrentMap items fn c' = concurrentMap items fn concurrency)"
proof -
  have run: "\<And>c. 1 \<le> c \<Longrightarrow> concurrentMap items fn c = Some (Inr (map g items), items)"
    using concurrentMap_loop_fulfilled[OF _ assms(2), of _ 0 "[]" "[]"]
    by (simp add: concurrentMap_def)
  show ?thesis using run assms(1) by simp
qed

theorem concurrentMap_preserves_order_witness:
  "(1::int) \<le> 2 \<and>
   concurrentMap [1, 2, 3, 4, 5 :: nat] (\<lambda>x. (10 - x, Inr (x * 10) :: string + nat)) 2
     = Some (Inr [10, 20, 30, 40, 50], [1, 2, 3, 4, 5])"
proof -
  have h1: "(1::int) \<le> 2" by simp
  have h2: "\<forall>x \<in> set [1, 2, 3, 4, 5 :: nat].
      snd ((\<lambda>x. (10 - x, Inr (x * 10) :: string + nat)) x) = Inr ((\<lambda>x. x * 10) x)" by simp
  from concurrentMap_preserves_order[OF h1 h2] show ?thesis by simp
qed

text \<open>
  C4. When some unit of the input is rejected and the concurrency is at least 1,
  \<open>concurrentMap\<close> fails and returns no result list. With \<open>k\<close> the first position
  of a rejected unit, the failure is the reason of a unit of the window of \<open>k\<close> (the
  one that rejects first there; the unit at \<open>k\<close> when no other unit of that window
  is rejected), the values of the units fulfilled in that window are dropped, and the
  units started are those of the windows up to that one: no unit of a later window is
  started.
\<close>

theorem concurrentMap_fail_fast:
  assumes "1 \<le> concurrency" and "\<exists>u \<in> set items. isl (snd (fn u))"
  shows "\<exists>e j k. concurrentMap items fn concurrency =
              Some (Inl e, take ((k div nat concurrency + 1) * nat concurrency) items)
     \<and> k < length items \<and> isl (snd (fn (items ! k)))
     \<and> (\<forall>i. i < k \<longrightarrow> \<not> isl (snd (fn (items ! i))))
     \<and> k div nat concurrency * nat concurrency \<le> j
     \<and> j < (k div nat concurrency + 1) * nat concurrency
     \<and> j < length items
     \<and> snd (fn (items ! j)) = Inl e
     \<and> (\<forall>j'. k div nat concurrency * nat concurrency \<le> j'
              \<and> j' < (k div nat concurrency + 1) * nat concurrency
              \<and> j' < length items \<and> isl (snd (fn (items ! j')))
            \<longrightarrow> fst (fn (items ! j)) \<le> fst (fn (items ! j')))
     \<and> ((\<forall>i. i < length items \<and> i \<noteq> k \<longrightarrow> \<not> isl (snd (fn (items ! i))))
            \<longrightarrow> snd (fn (items ! k)) = Inl e)
     \<and> (\<forall>results started. concurrentMap items fn concurrency \<noteq> Some (Inr results, started))"
proof -
  define k where "k = (LEAST i. i < length items \<and> isl (snd (fn (items ! i))))"
  from assms(2) obtain i0 where "i0 < length items \<and> isl (snd (fn (items ! i0)))"
    by (auto simp: in_set_conv_nth)
  then have k: "k < length items \<and> isl (snd (fn (items ! k)))"
    unfolding k_def by (rule LeastI)
  have first: "\<forall>i. i < k \<longrightarrow> \<not> isl (snd (fn (items ! i)))"
  proof (intro allI impI)
    fix i assume "i < k"
    then have "\<not> (i < length items \<and> isl (snd (fn (items ! i))))"
      unfolding k_def by (rule not_less_Least)
    moreover have "i < length items" using \<open>i < k\<close> k by simp
    ultimately show "\<not> isl (snd (fn (items ! i)))" by simp
  qed
  have "\<forall>j. 0 \<le> j \<and> j < k \<longrightarrow> \<not> isl (snd (fn (items ! j)))" using first by simp
  from concurrentMap_loop_rejected[OF assms(1) conjunct1[OF k] conjunct2[OF k] _ this, of "[]" "[]"]
  obtain e j where
    run: "concurrentMap items fn concurrency =
              Some (Inl e, take ((k div nat concurrency + 1) * nat concurrency) items)"
    and j: "k div nat concurrency * nat concurrency \<le> j"
           "j < (k div nat concurrency + 1) * nat concurrency"
           "j < length items" "snd (fn (items ! j)) = Inl e"
    and least: "\<forall>j'. k div nat concurrency * nat concurrency \<le> j'
              \<and> j' < (k div nat concurrency + 1) * nat concurrency
              \<and> j' < length items \<and> isl (snd (fn (items ! j')))
            \<longrightarrow> fst (fn (items ! j)) \<le> fst (fn (items ! j'))"
    by (auto simp: concurrentMap_def)
  have none: "\<forall>results started. concurrentMap items fn concurrency \<noteq> Some (Inr results, started)"
    using run by simp
  have single: "(\<forall>i. i < length items \<and> i \<noteq> k \<longrightarrow> \<not> isl (snd (fn (items ! i))))
            \<longrightarrow> snd (fn (items ! k)) = Inl e"
  proof
    assume only: "\<forall>i. i < length items \<and> i \<noteq> k \<longrightarrow> \<not> isl (snd (fn (items ! i)))"
    have "isl (snd (fn (items ! j)))" using j(4) by simp
    then have "j = k" using only j(3) by blast
    then show "snd (fn (items ! k)) = Inl e" using j(4) by simp
  qed
  show ?thesis using run k first j least single none by blast
qed

theorem concurrentMap_fail_fast_witness:
  "(1::int) \<le> 2 \<and>
   concurrentMap [1, 2, 3, 4, 5 :: nat]
      (\<lambda>x. (10 - x, if x = 3 \<or> x = 4 then Inl x else Inr (x * 10))) 2
     = Some (Inl 4, [1, 2, 3, 4])"
proof -
  let ?fn = "\<lambda>x::nat. (10 - x, if x = 3 \<or> x = 4 then Inl x else Inr (x * 10))"
  have h1: "(1::int) \<le> 2" by simp
  have h2: "\<exists>u \<in> set [1, 2, 3, 4, 5 :: nat]. isl (snd (?fn u))" by simp
  from concurrentMap_fail_fast[OF h1 h2]
  obtain e started where "concurrentMap [1, 2, 3, 4, 5 :: nat] ?fn 2 = Some (Inl e, started)"
    by blast
  moreover have "concurrentMap [1, 2, 3, 4, 5 :: nat] ?fn 2 = Some (Inl 4, [1, 2, 3, 4])"
    by code_simp
  ultimately show ?thesis by simp
qed

section \<open>Termination of the chunking loops\<close>

lemma createBatchesFromArray_loop_diverges:
  assumes "batchSize \<le> 0" and "i < int (length items)"
  shows "createBatchesFromArray_loop items batchSize i batches = None"
proof (rule ccontr)
  assume "createBatchesFromArray_loop items batchSize i batches \<noteq> None"
  then obtain y where y: "createBatchesFromArray_loop items batchSize i batches = Some y" by auto
  have "\<not> (batchSize \<le> 0 \<and> i < int (length items))"
  proof (rule createBatchesFromArray_loop.raw_induct
          [where P = "\<lambda>items batchSize i batches y. \<not> (batchSize \<le> 0 \<and> i < int (length items))", OF _ y],
         goal_cases)
    case (1 f its bsz j bts r)
    show ?case
    proof
      assume a: "bsz \<le> 0 \<and> j < int (length its)"
      then have "f its bsz (j + bsz) (bts @ [jsSlice its j (j + bsz)]) = Some r" using 1(2) by simp
      from 1(1)[OF this] a show False by simp
    qed
  qed
  then show False using assms by simp
qed

lemma createBatchesFromArray_loop_returns:
  assumes "1 \<le> batchSize"
  shows "\<exists>bs. createBatchesFromArray_loop items batchSize (int i) batches = Some bs
            \<and> concat bs = concat batches @ drop i items"
proof (induction "length items - i" arbitrary: i batches rule: less_induct)
  case less
  show ?case
  proof (cases "i < length items")
    case False
    then show ?thesis by (subst createBatchesFromArray_loop.simps) simp
  next
    case True
    have slice: "jsSlice items (int i) (int i + batchSize) = take (nat batchSize) (drop i items)"
      using assms jsSlice_window[of "int i" batchSize items] by simp
    have next_i: "int i + batchSize = int (i + nat batchSize)" using assms by simp
    have il: "int i < int (length items)" using True by simp
    have step: "createBatchesFromArray_loop items batchSize (int i) batches =
        createBatchesFromArray_loop items batchSize (int (i + nat batchSize))
          (batches @ [take (nat batchSize) (drop i items)])"
      by (subst createBatchesFromArray_loop.simps) (simp only: il if_True slice next_i[symmetric])
    have "length items - (i + nat batchSize) < length items - i" using True assms by simp
    from less[OF this, of "batches @ [take (nat batchSize) (drop i items)]"]
    obtain bs where bs: "createBatchesFromArray_loop items batchSize (int (i + nat batchSize))
          (batches @ [take (nat batchSize) (drop i items)]) = Some bs"
      "concat bs = concat (batches @ [take (nat batchSize) (drop i items)]) @ drop (i + nat batchSize) items"
      by blast
    have "take (nat batchSize) (drop i items) @ drop (i + nat batchSize) items = drop i items"
      by (metis add.commute append_take_drop_id drop_drop)
    then have "concat bs = concat batches @ drop i items" using bs(2) by simp
    then show ?thesis using bs(1) step by simp
  qed
qed

lemma concurrentMap_loop_returns:
  assumes "1 \<le> c"
  shows "\<exists>r. concurrentMap_loop items fn c (int i) results started = Some r"
proof (induction "length items - i" arbitrary: i results started rule: less_induct)
  case less
  show ?case
  proof (cases "i < length items")
    case False
    then show ?thesis by (simp add: concurrentMap_loop_done)
  next
    case True
    have dec: "length items - (i + nat c) < length items - i" using True assms by simp
    show ?thesis
    proof (cases "promiseAll (map fn (take (nat c) (drop i items)))")
      case (Inl e)
      then show ?thesis by (simp only: concurrentMap_loop_step[OF assms True] sum.case) blast
    next
      case (Inr rs)
      then show ?thesis
        using less[OF dec] by (simp only: concurrentMap_loop_step[OF assms True] sum.case)
    qed
  qed
qed

lemma promiseAll_Nil: "promiseAll [] = Inr []"
  by (simp add: promiseAll_def List.map_filter_simps)

lemma concurrentMap_loop_diverges_zero:
  assumes "i < int (length items)"
  shows "concurrentMap_loop items fn 0 i results started = None"
proof (rule ccontr)
  assume "concurrentMap_loop items fn 0 i results started \<noteq> None"
  then obtain y where y: "concurrentMap_loop items fn 0 i results started = Some y" by auto
  have "\<not> (0 = (0::int) \<and> i < int (length items))"
  proof (rule concurrentMap_loop.raw_induct
          [where P = "\<lambda>items fn c i results started y. \<not> (c = 0 \<and> i < int (length items))", OF _ y],
         goal_cases)
    case (1 f its g c j rs st r)
    show ?case
    proof
      assume a: "c = 0 \<and> j < int (length its)"
      then have "f its g c (j + c) (rs @ []) (st @ []) = Some r"
        using 1(2) by (simp add: jsSlice_empty_window promiseAll_Nil)
      from 1(1)[OF this] a show False by simp
    qed
  qed
  then show False using assms by simp
qed

lemma concurrentMap_loop_diverges_negative:
  assumes "c < 0" and "i < 0"
  shows "concurrentMap_loop items fn c i results started = None"
proof (rule ccontr)
  assume "concurrentMap_loop items fn c i results started \<noteq> None"
  then obtain y where y: "concurrentMap_loop items fn c i results started = Some y" by auto
  have "\<not> (c < 0 \<and> i < 0)"
  proof (rule concurrentMap_loop.raw_induct
          [where P = "\<lambda>items fn c i results started y. \<not> (c < 0 \<and> i < 0)", OF _ y],
         goal_cases)
    case (1 f its g d j rs st r)
    show ?case
    proof
      assume a: "d < 0 \<and> j < 0"
      then have "jsSlice its j (j + d) = []" by (simp add: jsSlice_negative)
      then have "f its g d (j + d) (rs @ []) (st @ []) = Some r"
        using 1(2) a by (simp add: promiseAll_Nil)
      from 1(1)[OF this] a show False by simp
    qed
  qed
  then show False using assms by simp
qed

lemma concurrentMap_negative:
  assumes "c < 0" and "items \<noteq> []"
  shows "concurrentMap items fn c =
     (case promiseAll (map fn (jsSlice items 0 c)) of
        Inl e \<Rightarrow> Some (Inl e, jsSlice items 0 c)
      | Inr chunkResults \<Rightarrow> None)"
proof -
  have "(0::int) < int (length items)" using assms(2) by simp
  then have "concurrentMap items fn c =
     (case promiseAll (map fn (jsSlice items 0 c)) of
        Inl e \<Rightarrow> Some (Inl e, jsSlice items 0 c)
      | Inr chunkResults \<Rightarrow> concurrentMap_loop items fn c c chunkResults (jsSlice items 0 c))"
    unfolding concurrentMap_def
    by (subst concurrentMap_loop.simps) (simp add: Let_def cong: sum.case_cong)
  then show ?thesis
    using assms(1) by (simp add: concurrentMap_loop_diverges_negative split: sum.splits)
qed

lemma batchGetDomainDetails_diverges:
  assumes "batchSize_c cfg \<le> 1" and "tokenIds \<noteq> []"
  shows "batchGetDomainDetails cfg C tokenIds = None"
proof -
  have "batchSize_c cfg div 2 \<le> 0" using assms(1) by simp
  moreover have "0 < int (length tokenIds)" using assms(2) by simp
  ultimately have "createBatchesFromArray tokenIds (batchSize_c cfg div 2) = None"
    unfolding createBatchesFromArray_def by (rule createBatchesFromArray_loop_diverges)
  then show ?thesis by (simp add: batchGetDomainDetails_def)
qed

text \<open>
  C10, as amended. For a step of at least 1, \<open>createBatchesFromArray\<close> and
  \<open>concurrentMap\<close> return. On a non-empty list, \<open>createBatchesFromArray\<close> does not
  return for a step of 0 or less, and \<open>concurrentMap\<close> does not return for a step
  of 0; for a negative step \<open>concurrentMap\<close> starts the units of
  \<open>items.slice(0, concurrency)\<close>, fails with the reason of the one that rejects first
  when one is rejected, and does not return when none is. A configuration with
  \<open>batchSize = 1\<close> gives the details stage the chunk size 0, and the stage does not
  return on a non-empty list of identifiers.
\<close>

theorem step_loops_termination:
  "(1 \<le> c \<longrightarrow> (\<exists>batches. createBatchesFromArray items c = Some batches)
               \<and> (\<exists>r. concurrentMap items fn c = Some r))
   \<and> (c \<le> 0 \<and> items \<noteq> [] \<longrightarrow> createBatchesFromArray items c = None)
   \<and> (items \<noteq> [] \<longrightarrow> concurrentMap items fn 0 = None)
   \<and> (c < 0 \<and> items \<noteq> [] \<longrightarrow>
         concurrentMap items fn c =
           (case promiseAll (map fn (jsSlice items 0 c)) of
              Inl e \<Rightarrow> Some (Inl e, jsSlice items 0 c)
            | Inr chunkResults \<Rightarrow> None))
   \<and> (batchSize_c cfg = 1 \<and> tokenIds \<noteq> [] \<longrightarrow> batchGetDomainDetails cfg C tokenIds = None)"
proof -
  have a: "1 \<le> c \<longrightarrow> (\<exists>batches. createBatchesFromArray items c = Some batches)
               \<and> (\<exists>r. concurrentMap items fn c = Some r)"
  proof
    assume c: "1 \<le> c"
    have "\<exists>batches. createBatchesFromArray items c = Some batches"
      using createBatchesFromArray_loop_returns[OF c, of items 0 "[]"]
      by (auto simp: createBatchesFromArray_def)
    moreover have "\<exists>r. concurrentMap items fn c = Some r"
      using concurrentMap_loop_returns[OF c, of items fn 0 "[]" "[]"]
      by (simp add: concurrentMap_def)
    ultimately show "(\<exists>batches. createBatchesFromArray items c = Some batches)
               \<and> (\<exists>r. concurrentMap items fn c = Some r)" ..
  qed
  have b: "c \<le> 0 \<and> items \<noteq> [] \<longrightarrow> createBatchesFromArray items c = None"
    by (simp add: createBatchesFromArray_def createBatchesFromArray_loop_diverges)
  have z: "items \<noteq> [] \<longrightarrow> concurrentMap items fn 0 = None"
    by (simp add: concurrentMap_def concurrentMap_loop_diverges_zero)
  have n: "c < 0 \<and> items \<noteq> [] \<longrightarrow>
         concurrentMap items fn c =
           (case promiseAll (map fn (jsSlice items 0 c)) of
              Inl e \<Rightarrow> Some (Inl e, jsSlice items 0 c)
            | Inr chunkResults \<Rightarrow> None)"
    using concurrentMap_negative[of c items fn] by blast
  have d: "batchSize_c cfg = 1 \<and> tokenIds \<noteq> [] \<longrightarrow> batchGetDomainDetails cfg C tokenIds = None"
    by (simp add: batchGetDomainDetails_diverges)
  show ?thesis using a b z n d by blast
qed

theorem step_loops_termination_witness:
  "createBatchesFromArray [1, 2, 3 :: nat] 2 = Some [[1, 2], [3]]
   \<and> concurrentMap [1, 2, 3 :: nat] (\<lambda>x. (0, Inr x :: string + nat)) 2 = Some (Inr [1, 2, 3], [1, 2, 3])
   \<and> createBatchesFromArray [1, 2, 3 :: nat] 0 = None
   \<and> createBatchesFromArray [1, 2, 3 :: nat] (- 1) = None
   \<and> concurrentMap [1, 2, 3 :: nat] (\<lambda>x. (0, Inr x :: string + nat)) 0 = None
   \<and> concurrentMap [1, 2, 3 :: nat] (\<lambda>x. (0, Inr x :: string + nat)) (- 1) = None
   \<and> batchGetDomainDetails
        \<lparr>rpcUrl = ''http://rpc'', contractAddress = ''0xdid'', batchSize_c = 1, concurrency_c = 5,
          retryAttempts_c = 3\<rparr>
        \<lparr>totalSupply = Inr 1, staticCall = (\<lambda>calls attempt. Inl ''down''), latency = (\<lambda>calls. 0),
          encodeTokenByIndex = (\<lambda>i. ''t''), encodeGetMetadata = (\<lambda>t. ''m''),
          encodeOwnerOf = (\<lambda>t. ''o''), decodeTokenByIndex = (\<lambda>r. Inl ''bad''),
          decodeGetMetadata = (\<lambda>r. Inl ''bad''), decodeOwnerOf = (\<lambda>r. Inl ''bad'')\<rparr>
        [''7''] = None"
  (is "?P1 \<and> ?P2 \<and> ?P3 \<and> ?P4 \<and> ?P5 \<and> ?P6 \<and> ?P7")
proof -
  let ?fn = "\<lambda>x::nat. (0::nat, Inr x :: string + nat)"
  let ?cfg = "\<lparr>rpcUrl = ''http://rpc'', contractAddress = ''0xdid'', batchSize_c = 1, concurrency_c = 5,
          retryAttempts_c = 3\<rparr>"
  let ?C = "\<lparr>totalSupply = Inr 1, staticCall = (\<lambda>calls attempt. Inl ''down''), latency = (\<lambda>calls. 0),
          encodeTokenByIndex = (\<lambda>i. ''t''), encodeGetMetadata = (\<lambda>t. ''m''),
          encodeOwnerOf = (\<lambda>t. ''o''), decodeTokenByIndex = (\<lambda>r. Inl ''bad''),
          decodeGetMetadata = (\<lambda>r. Inl ''bad''), decodeOwnerOf = (\<lambda>r. Inl ''bad'')\<rparr>"
  have a: ?P1 by code_simp
  have b: ?P2 by code_simp
  have "[1, 2, 3 :: nat] \<noteq> []" by simp
  note t0 = step_loops_termination[of 0 "[1, 2, 3 :: nat]" ?fn ?cfg "[''7'']" ?C]
  note t1 = step_loops_termination[of "- 1" "[1, 2, 3 :: nat]" ?fn ?cfg "[''7'']" ?C]
  have c: ?P3 using t0 by simp
  have d: ?P4 using t1 by simp
  have e: ?P5 using t0 by simp
  have "jsSlice [1, 2, 3 :: nat] 0 (- 1) = [1, 2]" by (simp add: jsSlice_def)
  moreover have "promiseAll (map ?fn [1, 2]) = Inr [1, 2]"
    by (simp add: promiseAll_def List.map_filter_simps)
  ultimately have f: ?P6 using t1 by simp
  have g: ?P7 using t0 by simp
  show ?thesis using a b c d e f g by blast
qed

text \<open>
  The claim C10 as it was stated fails for a negative concurrency: the first window is
  \<open>[1, 2].slice(0, -1) = [1]\<close>, its unit is rejected, and \<open>concurrentMap\<close> returns
  with that failure.
\<close>

theorem concurrentMap_negative_counterexample:
  "concurrentMap [1, 2 :: nat] (\<lambda>x. (0, if x = 1 then Inl ''boom'' else Inr x)) (- 1)
     = Some (Inl ''boom'', [1])"
  by code_simp

section \<open>Properties of executeMulticallWithRetry\<close>

lemma retry_loop_success:
  assumes "k \<le> retryAttempts_c cfg" and "staticCall C calls k = Inr r"
  shows "a \<le> k \<Longrightarrow> (\<forall>j. a \<le> j \<and> j < k \<longrightarrow> isl (staticCall C calls j)) \<Longrightarrow>
     executeMulticallWithRetry_loop cfg C calls a trace =
       (Inr r, trace @ concat (map (\<lambda>j. [Call j, Warn j, Sleep (1000 * j)]) [a..k - 1]) @ [Call k])"
proof (induction "nat (k - a)" arbitrary: a trace)
  case 0
  then have "a = k" by simp
  then show ?case
    using assms by (subst executeMulticallWithRetry_loop.simps) simp
next
  case (Suc d)
  then have lt: "a < k" by simp
  then obtain e where e: "staticCall C calls a = Inl e"
    using Suc.prems(2) by (cases "staticCall C calls a") auto
  have d: "d = nat (k - (a + 1))" using Suc.hyps(2) by simp
  have rest: "\<forall>j. a + 1 \<le> j \<and> j < k \<longrightarrow> isl (staticCall C calls j)" using Suc.prems(2) by simp
  have ih: "executeMulticallWithRetry_loop cfg C calls (a + 1)
              (trace @ [Call a, Warn a, Sleep (1000 * a)]) =
       (Inr r, (trace @ [Call a, Warn a, Sleep (1000 * a)])
          @ concat (map (\<lambda>j. [Call j, Warn j, Sleep (1000 * j)]) [a + 1..k - 1]) @ [Call k])"
    using Suc.hyps(1)[OF d _ rest] lt by simp
  have range: "[a..k - 1] = a # [a + 1..k - 1]" using lt by (simp add: upto_rec1)
  show ?case
    apply (subst executeMulticallWithRetry_loop.simps)
    using lt assms(1) e ih by (simp add: range)
qed

lemma retry_loop_exhausted:
  assumes "staticCall C calls (retryAttempts_c cfg) = Inl e"
  shows "a \<le> retryAttempts_c cfg \<Longrightarrow>
     (\<forall>j. a \<le> j \<and> j < retryAttempts_c cfg \<longrightarrow> isl (staticCall C calls j)) \<Longrightarrow>
     executeMulticallWithRetry_loop cfg C calls a trace =
       (Inl (Rethrown e),
        trace @ concat (map (\<lambda>j. [Call j, Warn j, Sleep (1000 * j)]) [a..retryAttempts_c cfg - 1])
          @ [Call (retryAttempts_c cfg), Failed (retryAttempts_c cfg)])"
proof (induction "nat (retryAttempts_c cfg - a)" arbitrary: a trace)
  case 0
  then have "a = retryAttempts_c cfg" by simp
  then show ?case
    using assms by (subst executeMulticallWithRetry_loop.simps) simp
next
  case (Suc d)
  then have lt: "a < retryAttempts_c cfg" by simp
  then obtain e' where e': "staticCall C calls a = Inl e'"
    using Suc.prems(2) by (cases "staticCall C calls a") auto
  have d: "d = nat (retryAttempts_c cfg - (a + 1))" using Suc.hyps(2) by simp
  have rest: "\<forall>j. a + 1 \<le> j \<and> j < retryAttempts_c cfg \<longrightarrow> isl (staticCall C calls j)"
    using Suc.prems(2) by simp
  have ih: "executeMulticallWithRetry_loop cfg C calls (a + 1)
              (trace @ [Call a, Warn a, Sleep (1000 * a)]) =
       (Inl (Rethrown e), (trace @ [Call a, Warn a, Sleep (1000 * a)])
          @ concat (map (\<lambda>j. [Call j, Warn j, Sleep (1000 * j)]) [a + 1..retryAttempts_c cfg - 1])
          @ [Call (retryAttempts_c cfg), Failed (retryAttempts_c cfg)])"
    using Suc.hyps(1)[OF d _ rest] lt by simp
  have range: "[a..retryAttempts_c cfg - 1] = a # [a + 1..retryAttempts_c cfg - 1]"
    using lt by (simp add: upto_rec1)
  show ?case
    apply (subst executeMulticallWithRetry_loop.simps)
    using lt e' ih by (simp add: range)
qed

lemma retry_loop_calls_bound:
  "length (filter is_Call (snd (executeMulticallWithRetry_loop cfg C calls a trace)))
     \<le> length (filter is_Call trace) + nat (retryAttempts_c cfg + 1 - a)"
proof (induction cfg C calls a trace rule: executeMulticallWithRetry_loop.induct)
  case (1 cfg C calls attempt trace)
  show ?case
  proof (cases "attempt \<le> retryAttempts_c cfg")
    case False
    then show ?thesis by (subst executeMulticallWithRetry_loop.simps) simp
  next
    case True
    show ?thesis
    proof (cases "staticCall C calls attempt")
      case (Inr results)
      then show ?thesis using True by (subst executeMulticallWithRetry_loop.simps) simp
    next
      case (Inl error)
      show ?thesis
      proof (cases "attempt = retryAttempts_c cfg")
        case True
        then show ?thesis using Inl by (subst executeMulticallWithRetry_loop.simps) simp
      next
        case False
        have "nat (retryAttempts_c cfg + 1 - (attempt + 1)) + 1 = nat (retryAttempts_c cfg + 1 - attempt)"
          using True False by simp
        then show ?thesis
          using 1[OF True Inl False] True False Inl
          by (subst executeMulticallWithRetry_loop.simps) simp
      qed
    qed
  qed
qed

lemma retry_loop_not_wrapped:
  "fst (executeMulticallWithRetry_loop cfg C calls a trace) = Inl t \<Longrightarrow>
     (\<exists>e. t = Rethrown e) \<or> t = Error ''Multicall failed''"
proof (induction cfg C calls a trace rule: executeMulticallWithRetry_loop.induct)
  case (1 cfg C calls attempt trace)
  show ?case
  proof (cases "attempt \<le> retryAttempts_c cfg")
    case False
    then show ?thesis using 1(2) by (subst (asm) executeMulticallWithRetry_loop.simps) simp
  next
    case True
    show ?thesis
    proof (cases "staticCall C calls attempt")
      case (Inr results)
      then show ?thesis using True 1(2) by (subst (asm) executeMulticallWithRetry_loop.simps) simp
    next
      case (Inl error)
      show ?thesis
      proof (cases "attempt = retryAttempts_c cfg")
        case True
        then show ?thesis using Inl 1(2) by (subst (asm) executeMulticallWithRetry_loop.simps) auto
      next
        case False
        have "fst (executeMulticallWithRetry_loop cfg C calls (attempt + 1)
                 (trace @ [Call attempt, Warn attempt, Sleep (1000 * attempt)])) = Inl t"
          using 1(2) True False Inl by (subst (asm) executeMulticallWithRetry_loop.simps) simp
        then show ?thesis using 1(1)[OF True Inl False] by simp
      qed
    qed
  qed
qed

lemma retry_no_attempts:
  "retryAttempts_c cfg < 1 \<Longrightarrow>
   executeMulticallWithRetry cfg C calls = (Inl (Error ''Multicall failed''), [])"
  unfolding executeMulticallWithRetry_def
  by (subst executeMulticallWithRetry_loop.simps) simp

text \<open>
  C3, as amended. With \<open>retryAttempts \<ge> 1\<close>, \<open>executeMulticallWithRetry\<close> calls the
  aggregated call at most \<open>retryAttempts\<close> times. When attempt \<open>k\<close> is the first that
  succeeds, it returns the results of that attempt, after the attempts \<open>1, ..., k - 1\<close>,
  each followed by a warning and a sleep of \<open>1000 * attempt\<close> milliseconds. When
  every attempt fails, it makes \<open>retryAttempts\<close> attempts, sleeps \<open>1000 * attempt\<close>
  after each but the last, and fails with the error of the last attempt itself, not
  wrapped: the number of attempts is printed by \<open>console.error\<close> and is no part of the
  failure.
\<close>

theorem executeMulticallWithRetry_attempts:
  assumes "1 \<le> retryAttempts_c cfg"
  shows "length (filter is_Call (snd (executeMulticallWithRetry cfg C calls))) \<le> nat (retryAttempts_c cfg)
   \<and> (\<forall>k r. 1 \<le> k \<and> k \<le> retryAttempts_c cfg \<and> staticCall C calls k = Inr r
              \<and> (\<forall>j. 1 \<le> j \<and> j < k \<longrightarrow> isl (staticCall C calls j))
        \<longrightarrow> executeMulticallWithRetry cfg C calls =
              (Inr r, concat (map (\<lambda>j. [Call j, Warn j, Sleep (1000 * j)]) [1..k - 1]) @ [Call k]))
   \<and> (\<forall>e. staticCall C calls (retryAttempts_c cfg) = Inl e
              \<and> (\<forall>j. 1 \<le> j \<and> j < retryAttempts_c cfg \<longrightarrow> isl (staticCall C calls j))
        \<longrightarrow> executeMulticallWithRetry cfg C calls =
              (Inl (Rethrown e),
               concat (map (\<lambda>j. [Call j, Warn j, Sleep (1000 * j)]) [1..retryAttempts_c cfg - 1])
                 @ [Call (retryAttempts_c cfg), Failed (retryAttempts_c cfg)]))"
proof -
  have bound: "length (filter is_Call (snd (executeMulticallWithRetry cfg C calls)))
      \<le> nat (retryAttempts_c cfg)"
    using retry_loop_calls_bound[of cfg C calls 1 "[]"]
    by (simp add: executeMulticallWithRetry_def)
  have success: "\<forall>k r. 1 \<le> k \<and> k \<le> retryAttempts_c cfg \<and> staticCall C calls k = Inr r
              \<and> (\<forall>j. 1 \<le> j \<and> j < k \<longrightarrow> isl (staticCall C calls j))
        \<longrightarrow> executeMulticallWithRetry cfg C calls =
              (Inr r, concat (map (\<lambda>j. [Call j, Warn j, Sleep (1000 * j)]) [1..k - 1]) @ [Call k])"
  proof (intro allI impI, elim conjE)
    fix k r
    assume "1 \<le> k" "k \<le> retryAttempts_c cfg" "staticCall C calls k = Inr r"
      "\<forall>j. 1 \<le> j \<and> j < k \<longrightarrow> isl (staticCall C calls j)"
    then show "executeMulticallWithRetry cfg C calls =
              (Inr r, concat (map (\<lambda>j. [Call j, Warn j, Sleep (1000 * j)]) [1..k - 1]) @ [Call k])"
      using retry_loop_success[of k cfg C calls r 1 "[]"]
      by (simp add: executeMulticallWithRetry_def)
  qed
  have exhausted: "\<forall>e. staticCall C calls (retryAttempts_c cfg) = Inl e
              \<and> (\<forall>j. 1 \<le> j \<and> j < retryAttempts_c cfg \<longrightarrow> isl (staticCall C calls j))
        \<longrightarrow> executeMulticallWithRetry cfg C calls =
              (Inl (Rethrown e),
               concat (map (\<lambda>j. [Call j, Warn j, Sleep (1000 * j)]) [1..retryAttempts_c cfg - 1])
                 @ [Call (retryAttempts_c cfg), Failed (retryAttempts_c cfg)])"
  proof (intro allI impI, elim conjE)
    fix e
    assume "staticCall C calls (retryAttempts_c cfg) = Inl e"
      "\<forall>j. 1 \<le> j \<and> j < retryAttempts_c cfg \<longrightarrow> isl (staticCall C calls j)"
    then show "executeMulticallWithRetry cfg C calls =
              (Inl (Rethrown e),
               concat (map (\<lambda>j. [Call j, Warn j, Sleep (1000 * j)]) [1..retryAttempts_c cfg - 1])
                 @ [Call (retryAttempts_c cfg), Failed (retryAttempts_c cfg)])"
      using retry_loop_exhausted[of C calls cfg e 1 "[]"] assms
      by (simp add: executeMulticallWithRetry_def)
  qed
  show ?thesis using bound success exhausted by blast
qed

theorem executeMulticallWithRetry_attempts_witness:
  "executeMulticallWithRetry
      \<lparr>rpcUrl = ''http://rpc'', contractAddress = ''0xdid'', batchSize_c = 500, concurrency_c = 5,
        retryAttempts_c = 3\<rparr>
      \<lparr>totalSupply = Inr 1,
        staticCall = (\<lambda>calls attempt. if attempt < 3 then Inl ''timeout'' else Inr [''0x01'']),
        latency = (\<lambda>calls. 0),
        encodeTokenByIndex = (\<lambda>i. ''t''), encodeGetMetadata = (\<lambda>t. ''m''),
        encodeOwnerOf = (\<lambda>t. ''o''), decodeTokenByIndex = (\<lambda>r. Inl ''bad''),
        decodeGetMetadata = (\<lambda>r. Inl ''bad''), decodeOwnerOf = (\<lambda>r. Inl ''bad'')\<rparr>
      [''call'']
    = (Inr [''0x01''], [Call 1, Warn 1, Sleep 1000, Call 2, Warn 2, Sleep 2000, Call 3])
   \<and> executeMulticallWithRetry
      \<lparr>rpcUrl = ''http://rpc'', contractAddress = ''0xdid'', batchSize_c = 500, concurrency_c = 5,
        retryAttempts_c = 2\<rparr>
      \<lparr>totalSupply = Inr 1,
        staticCall = (\<lambda>calls attempt. Inl ''timeout''),
        latency = (\<lambda>calls. 0),
        encodeTokenByIndex = (\<lambda>i. ''t''), encodeGetMetadata = (\<lambda>t. ''m''),
        encodeOwnerOf = (\<lambda>t. ''o''), decodeTokenByIndex = (\<lambda>r. Inl ''bad''),
        decodeGetMetadata = (\<lambda>r. Inl ''bad''), decodeOwnerOf = (\<lambda>r. Inl ''bad'')\<rparr>
      [''call'']
    = (Inl (Rethrown ''timeout''), [Call 1, Warn 1, Sleep 1000, Call 2, Failed 2])"
  (is "executeMulticallWithRetry ?cfg3 ?C3 ?calls = ?r3 \<and> executeMulticallWithRetry ?cfg2 ?C2 ?calls = ?r2")
proof -
  have up: "[1..(2::int)] = [1, 2]" "[1..(1::int)] = [1]" by (simp_all add: upto_rec1)
  have h3: "1 \<le> retryAttempts_c ?cfg3" by simp
  have "1 \<le> (3::int) \<and> 3 \<le> retryAttempts_c ?cfg3 \<and> staticCall ?C3 ?calls 3 = Inr [''0x01'']
      \<and> (\<forall>j. 1 \<le> j \<and> j < 3 \<longrightarrow> isl (staticCall ?C3 ?calls j))" by simp
  with executeMulticallWithRetry_attempts[OF h3, of ?C3 ?calls]
  have "executeMulticallWithRetry ?cfg3 ?C3 ?calls =
      (Inr [''0x01''], concat (map (\<lambda>j. [Call j, Warn j, Sleep (1000 * j)]) [1..3 - 1]) @ [Call 3])"
    by blast
  then have a: "executeMulticallWithRetry ?cfg3 ?C3 ?calls = ?r3" by (simp add: up)
  have h2: "1 \<le> retryAttempts_c ?cfg2" by simp
  have "staticCall ?C2 ?calls (retryAttempts_c ?cfg2) = Inl ''timeout''
      \<and> (\<forall>j. 1 \<le> j \<and> j < retryAttempts_c ?cfg2 \<longrightarrow> isl (staticCall ?C2 ?calls j))" by simp
  with executeMulticallWithRetry_attempts[OF h2, of ?C2 ?calls]
  have "executeMulticallWithRetry ?cfg2 ?C2 ?calls =
      (Inl (Rethrown ''timeout''),
       concat (map (\<lambda>j. [Call j, Warn j, Sleep (1000 * j)]) [1..retryAttempts_c ?cfg2 - 1])
         @ [Call (retryAttempts_c ?cfg2), Failed (retryAttempts_c ?cfg2)])"
    by blast
  then have b: "executeMulticallWithRetry ?cfg2 ?C2 ?calls = ?r2" by (simp add: up)
  show ?thesis using a b by blast
qed

text \<open>
  The claim C3 as it was stated fails in its last part: after two failed attempts the
  failure is the error of the aggregated call as it was raised, and not a
  \<open>CallFailure\<close> that carries the number of attempts and the cause.
\<close>

theorem executeMulticallWithRetry_wrap_counterexample:
  "fst (executeMulticallWithRetry
      \<lparr>rpcUrl = ''http://rpc'', contractAddress = ''0xdid'', batchSize_c = 500, concurrency_c = 5,
        retryAttempts_c = 2\<rparr>
      \<lparr>totalSupply = Inr 1,
        staticCall = (\<lambda>calls attempt. Inl ''timeout''),
        latency = (\<lambda>calls. 0),
        encodeTokenByIndex = (\<lambda>i. ''t''), encodeGetMetadata = (\<lambda>t. ''m''),
        encodeOwnerOf = (\<lambda>t. ''o''), decodeTokenByIndex = (\<lambda>r. Inl ''bad''),
        decodeGetMetadata = (\<lambda>r. Inl ''bad''), decodeOwnerOf = (\<lambda>r. Inl ''bad'')\<rparr>
      [''call''])
    = Inl (Rethrown ''timeout'')
   \<and> fst (executeMulticallWithRetry
      \<lparr>rpcUrl = ''http://rpc'', contractAddress = ''0xdid'', batchSize_c = 500, concurrency_c = 5,
        retryAttempts_c = 2\<rparr>
      \<lparr>totalSupply = Inr 1,
        staticCall = (\<lambda>calls attempt. Inl ''timeout''),
        latency = (\<lambda>calls. 0),
        encodeTokenByIndex = (\<lambda>i. ''t''), encodeGetMetadata = (\<lambda>t. ''m''),
        encodeOwnerOf = (\<lambda>t. ''o''), decodeTokenByIndex = (\<lambda>r. Inl ''bad''),
        decodeGetMetadata = (\<lambda>r. Inl ''bad''), decodeOwnerOf = (\<lambda>r. Inl ''bad'')\<rparr>
      [''call''])
    \<noteq> Inl (CallFailure 2 ''timeout'')"
  by (simp add: executeMulticallWithRetry_def executeMulticallWithRetry_loop.simps)

section \<open>Properties of multicallGetDetails\<close>

lemma detailCalls_concat:
  "detailCalls C tokenIds calls =
     calls @ concat (map (\<lambda>tokenId. [encodeGetMetadata C tokenId, encodeOwnerOf C tokenId]) tokenIds)"
  by (induction tokenIds arbitrary: calls) simp_all

lemma pairs_length: "length (concat (map (\<lambda>x. [f x, g x]) xs)) = 2 * length xs"
  by (induction xs) simp_all

lemma pairs_nth:
  "i < length xs \<Longrightarrow>
     concat (map (\<lambda>x. [f x, g x]) xs) ! (2 * i) = f (xs ! i)
     \<and> concat (map (\<lambda>x. [f x, g x]) xs) ! (2 * i + 1) = g (xs ! i)"
proof (induction xs arbitrary: i)
  case Nil
  then show ?case by simp
next
  case (Cons x xs)
  show ?case
  proof (cases i)
    case 0
    then show ?thesis by simp
  next
    case (Suc n)
    then have "n < length xs" using Cons.prems by simp
    from Cons.IH[OF this] show ?thesis using Suc by simp
  qed
qed

lemma decodeDetails_closed:
  assumes "\<forall>i \<in> set idxs. decodeGetMetadata C (jsIndex results (i * 2)) = Inr (metadata i)
                      \<and> decodeOwnerOf C (jsIndex results (i * 2 + 1)) = Inr (ownerResult i)"
  shows "decodeDetails C tokenIds results idxs domains =
     Inr (domains @ map (\<lambda>i. \<lparr>id_d = tokenIds ! i,
                               name = domain_m (metadata i),
                               did = did_m (metadata i),
                               note_d = notes_m (metadata i),
                               allowSubdomain = allowSubdomain_m (metadata i),
                               owner = toLowerCase (ownerResult i),
                               subdomains = []\<rparr>) idxs)"
  using assms by (induction idxs arbitrary: domains) simp_all

lemma toLowerChar_not_upper:
  "\<not> (65 \<le> (of_char (toLowerChar c) :: nat) \<and> (of_char (toLowerChar c) :: nat) \<le> 90)"
proof (cases "65 \<le> (of_char c :: nat) \<and> (of_char c :: nat) \<le> 90")
  case True
  then have "(of_char c + 32 :: nat) < 256" by simp
  then have "(of_char (char_of (of_char c + 32 :: nat)) :: nat) = of_char c + 32"
    by (simp add: of_char_of)
  then show ?thesis using True by (simp add: toLowerChar_def)
next
  case False
  then show ?thesis by (simp add: toLowerChar_def)
qed

lemma toLowerChar_code:
  "(of_char (toLowerChar c) :: nat) =
     (if 65 \<le> (of_char c :: nat) \<and> (of_char c :: nat) \<le> 90 then of_char c + 32 else of_char c)"
proof (cases "65 \<le> (of_char c :: nat) \<and> (of_char c :: nat) \<le> 90")
  case True
  then have "(of_char c + 32 :: nat) < 256" by simp
  then have "(of_char (char_of (of_char c + 32 :: nat)) :: nat) = of_char c + 32"
    by (simp add: of_char_of)
  then show ?thesis using True by (simp add: toLowerChar_def)
next
  case False
  then have "toLowerChar c = c" by (auto simp: toLowerChar_def)
  then show ?thesis using False by auto
qed

lemma toLowerCase_alphabet:
  "toLowerCase ''ABCDEFGHIJKLMNOPQRSTUVWXYZ'' = ''abcdefghijklmnopqrstuvwxyz''"
  by code_simp

lemma toLowerCase_others:
  "toLowerCase ''0123456789abcdefxyz'' = ''0123456789abcdefxyz''"
  by code_simp

lemma toLowerCase_not_upper:
  "c \<in> set (toLowerCase s) \<Longrightarrow> \<not> (65 \<le> (of_char c :: nat) \<and> (of_char c :: nat) \<le> 90)"
  using toLowerChar_not_upper by (auto simp: toLowerCase_def simp del: not_le)

text \<open>
  C5. For a batch of \<open>k\<close> identifiers, \<open>multicallGetDetails\<close> sends \<open>2k\<close> calls:
  call \<open>2i\<close> is the metadata call and call \<open>2i + 1\<close> the owner call of the \<open>i\<close>-th
  identifier. When the aggregated call succeeds and the results at \<open>2i\<close> and
  \<open>2i + 1\<close> decode, it returns one record for each identifier, in the order of the
  identifiers: record \<open>i\<close> has the \<open>i\<close>-th identifier as \<open>id\<close>, the metadata decoded
  from result \<open>2i\<close>, the owner decoded from result \<open>2i + 1\<close> in lower case, and no
  subdomains. A lowered string has the length of the original and no letter
  \<open>A\<close>..\<open>Z\<close>: character by character, a letter \<open>A\<close>..\<open>Z\<close> (codes 65 to 90) becomes
  the letter whose code is 32 more, its lower-case letter, and every other character
  is kept. So the 26 capital letters become the 26 small ones in order, and digits
  and small letters stay.
\<close>

theorem multicallGetDetails_interleaving:
  "length (detailCalls C tokenIds []) = 2 * length tokenIds
   \<and> (\<forall>i. i < length tokenIds \<longrightarrow>
         detailCalls C tokenIds [] ! (2 * i) = encodeGetMetadata C (tokenIds ! i)
         \<and> detailCalls C tokenIds [] ! (2 * i + 1) = encodeOwnerOf C (tokenIds ! i))
   \<and> (fst (executeMulticallWithRetry cfg C (detailCalls C tokenIds [])) = Inr results
       \<and> (\<forall>i. i < length tokenIds \<longrightarrow>
             decodeGetMetadata C (jsIndex results (i * 2)) = Inr (metadata i)
             \<and> decodeOwnerOf C (jsIndex results (i * 2 + 1)) = Inr (ownerResult i))
      \<longrightarrow> (\<exists>domains. multicallGetDetails cfg C tokenIds = Inr domains
             \<and> length domains = length tokenIds
             \<and> (\<forall>i. i < length tokenIds \<longrightarrow>
                   domains ! i = \<lparr>id_d = tokenIds ! i,
                                  name = domain_m (metadata i),
                                  did = did_m (metadata i),
                                  note_d = notes_m (metadata i),
                                  allowSubdomain = allowSubdomain_m (metadata i),
                                  owner = toLowerCase (ownerResult i),
                                  subdomains = []\<rparr>)))
   \<and> length (toLowerCase s) = length s
   \<and> (\<forall>c. c \<in> set (toLowerCase s) \<longrightarrow> \<not> (65 \<le> (of_char c :: nat) \<and> (of_char c :: nat) \<le> 90))
   \<and> (\<forall>i. i < length s \<longrightarrow>
         (of_char (toLowerCase s ! i) :: nat) =
           (if 65 \<le> (of_char (s ! i) :: nat) \<and> (of_char (s ! i) :: nat) \<le> 90
            then of_char (s ! i) + 32 else of_char (s ! i)))
   \<and> toLowerCase ''ABCDEFGHIJKLMNOPQRSTUVWXYZ'' = ''abcdefghijklmnopqrstuvwxyz''
   \<and> toLowerCase ''0123456789abcdefxyz'' = ''0123456789abcdefxyz''"
proof -
  have len: "length (detailCalls C tokenIds []) = 2 * length tokenIds"
    by (simp add: detailCalls_concat pairs_length)
  have nth: "\<forall>i. i < length tokenIds \<longrightarrow>
         detailCalls C tokenIds [] ! (2 * i) = encodeGetMetadata C (tokenIds ! i)
         \<and> detailCalls C tokenIds [] ! (2 * i + 1) = encodeOwnerOf C (tokenIds ! i)"
    using pairs_nth[of _ tokenIds "encodeGetMetadata C" "encodeOwnerOf C"]
    by (simp add: detailCalls_concat)
  have dec: "fst (executeMulticallWithRetry cfg C (detailCalls C tokenIds [])) = Inr results
       \<and> (\<forall>i. i < length tokenIds \<longrightarrow>
             decodeGetMetadata C (jsIndex results (i * 2)) = Inr (metadata i)
             \<and> decodeOwnerOf C (jsIndex results (i * 2 + 1)) = Inr (ownerResult i))
      \<longrightarrow> (\<exists>domains. multicallGetDetails cfg C tokenIds = Inr domains
             \<and> length domains = length tokenIds
             \<and> (\<forall>i. i < length tokenIds \<longrightarrow>
                   domains ! i = \<lparr>id_d = tokenIds ! i,
                                  name = domain_m (metadata i),
                                  did = did_m (metadata i),
                                  note_d = notes_m (metadata i),
                                  allowSubdomain = allowSubdomain_m (metadata i),
                                  owner = toLowerCase (ownerResult i),
                                  subdomains = []\<rparr>))"
  proof
    assume h: "fst (executeMulticallWithRetry cfg C (detailCalls C tokenIds [])) = Inr results
       \<and> (\<forall>i. i < length tokenIds \<longrightarrow>
             decodeGetMetadata C (jsIndex results (i * 2)) = Inr (metadata i)
             \<and> decodeOwnerOf C (jsIndex results (i * 2 + 1)) = Inr (ownerResult i))"
    then have "\<forall>i \<in> set [0..<length tokenIds].
        decodeGetMetadata C (jsIndex results (i * 2)) = Inr (metadata i)
        \<and> decodeOwnerOf C (jsIndex results (i * 2 + 1)) = Inr (ownerResult i)" by simp
    from decodeDetails_closed[OF this, of tokenIds "[]"] h
    have "multicallGetDetails cfg C tokenIds =
        Inr (map (\<lambda>i. \<lparr>id_d = tokenIds ! i,
                               name = domain_m (metadata i),
                               did = did_m (metadata i),
                               note_d = notes_m (metadata i),
                               allowSubdomain = allowSubdomain_m (metadata i),
                               owner = toLowerCase (ownerResult i),
                               subdomains = []\<rparr>) [0..<length tokenIds])"
      by (simp add: multicallGetDetails_def)
    then show "\<exists>domains. multicallGetDetails cfg C tokenIds = Inr domains
             \<and> length domains = length tokenIds
             \<and> (\<forall>i. i < length tokenIds \<longrightarrow>
                   domains ! i = \<lparr>id_d = tokenIds ! i,
                                  name = domain_m (metadata i),
                                  did = did_m (metadata i),
                                  note_d = notes_m (metadata i),
                                  allowSubdomain = allowSubdomain_m (metadata i),
                                  owner = toLowerCase (ownerResult i),
                                  subdomains = []\<rparr>)"
      by simp
  qed
  have low: "length (toLowerCase s) = length s" by (simp add: toLowerCase_def)
  have up: "\<forall>c. c \<in> set (toLowerCase s) \<longrightarrow> \<not> (65 \<le> (of_char c :: nat) \<and> (of_char c :: nat) \<le> 90)"
    using toLowerCase_not_upper by blast
  have each: "\<forall>i. i < length s \<longrightarrow>
         (of_char (toLowerCase s ! i) :: nat) =
           (if 65 \<le> (of_char (s ! i) :: nat) \<and> (of_char (s ! i) :: nat) \<le> 90
            then of_char (s ! i) + 32 else of_char (s ! i))"
    by (simp add: toLowerCase_def toLowerChar_code)
  show ?thesis
    apply (intro conjI)
          apply (rule len)
         apply (rule nth)
        apply (rule dec)
       apply (rule low)
      apply (rule up)
     apply (rule each)
    apply (rule toLowerCase_alphabet)
    apply (rule toLowerCase_others)
    done
qed

theorem multicallGetDetails_interleaving_witness:
  "detailCalls
      \<lparr>totalSupply = Inr 2, staticCall = (\<lambda>calls attempt. Inr calls), latency = (\<lambda>calls. 0),
        encodeTokenByIndex = (\<lambda>i. ''t''), encodeGetMetadata = (\<lambda>t. ''m'' @ t),
        encodeOwnerOf = (\<lambda>t. ''0xABCDEFabcdef'' @ t), decodeTokenByIndex = (\<lambda>r. Inr r),
        decodeGetMetadata = (\<lambda>r. case r of None \<Rightarrow> Inl ''bad''
           | Some x \<Rightarrow> Inr \<lparr>domain_m = x, did_m = ''did'', notes_m = ''n'', allowSubdomain_m = True\<rparr>),
        decodeOwnerOf = (\<lambda>r. case r of None \<Rightarrow> Inl ''bad'' | Some x \<Rightarrow> Inr x)\<rparr>
      [''7'', ''9''] []
    = [''m7'', ''0xABCDEFabcdef7'', ''m9'', ''0xABCDEFabcdef9'']
   \<and> multicallGetDetails
      \<lparr>rpcUrl = ''http://rpc'', contractAddress = ''0xdid'', batchSize_c = 500, concurrency_c = 5,
        retryAttempts_c = 3\<rparr>
      \<lparr>totalSupply = Inr 2, staticCall = (\<lambda>calls attempt. Inr calls), latency = (\<lambda>calls. 0),
        encodeTokenByIndex = (\<lambda>i. ''t''), encodeGetMetadata = (\<lambda>t. ''m'' @ t),
        encodeOwnerOf = (\<lambda>t. ''0xABCDEFabcdef'' @ t), decodeTokenByIndex = (\<lambda>r. Inr r),
        decodeGetMetadata = (\<lambda>r. case r of None \<Rightarrow> Inl ''bad''
           | Some x \<Rightarrow> Inr \<lparr>domain_m = x, did_m = ''did'', notes_m = ''n'', allowSubdomain_m = True\<rparr>),
        decodeOwnerOf = (\<lambda>r. case r of None \<Rightarrow> Inl ''bad'' | Some x \<Rightarrow> Inr x)\<rparr>
      [''7'', ''9'']
    = Inr [\<lparr>id_d = ''7'', name = ''m7'', did = ''did'', note_d = ''n'', allowSubdomain = True,
             owner = ''0xabcdefabcdef7'', subdomains = []\<rparr>,
           \<lparr>id_d = ''9'', name = ''m9'', did = ''did'', note_d = ''n'', allowSubdomain = True,
             owner = ''0xabcdefabcdef9'', subdomains = []\<rparr>]"
  (is "detailCalls ?C ?ids [] = ?calls \<and> multicallGetDetails ?cfg ?C ?ids = Inr [?d0, ?d1]")
proof -
  let ?metadata = "\<lambda>i::nat. \<lparr>domain_m = ?calls ! (i * 2), did_m = ''did'', notes_m = ''n'',
                               allowSubdomain_m = True\<rparr>"
  let ?ownerResult = "\<lambda>i::nat. ?calls ! (i * 2 + 1)"
  have calls: "detailCalls ?C ?ids [] = ?calls" by simp
  have run: "fst (executeMulticallWithRetry ?cfg ?C (detailCalls ?C ?ids [])) = Inr ?calls"
    by (simp add: executeMulticallWithRetry_def executeMulticallWithRetry_loop.simps)
  have dec: "\<forall>i. i < length ?ids \<longrightarrow>
      decodeGetMetadata ?C (jsIndex ?calls (i * 2)) = Inr (?metadata i)
      \<and> decodeOwnerOf ?C (jsIndex ?calls (i * 2 + 1)) = Inr (?ownerResult i)"
    by (simp add: jsIndex_def)
  from multicallGetDetails_interleaving[of ?C ?ids ?cfg ?calls ?metadata ?ownerResult] run dec
  obtain domains where d: "multicallGetDetails ?cfg ?C ?ids = Inr domains"
    "length domains = length ?ids"
    "\<forall>i. i < length ?ids \<longrightarrow>
        domains ! i = \<lparr>id_d = ?ids ! i, name = domain_m (?metadata i), did = did_m (?metadata i),
                       note_d = notes_m (?metadata i), allowSubdomain = allowSubdomain_m (?metadata i),
                       owner = toLowerCase (?ownerResult i), subdomains = []\<rparr>"
    by blast
  have low: "toLowerCase ''0xABCDEFabcdef7'' = ''0xabcdefabcdef7''" "toLowerCase ''0xABCDEFabcdef9'' = ''0xabcdefabcdef9''"
    by code_simp+
  have "domains ! 0 = ?d0" using d(3) low by simp
  moreover have "domains ! 1 = ?d1" using d(3) low by simp
  moreover have "length domains = 2" using d(2) by simp
  ultimately have "domains = [?d0, ?d1]"
    by (intro nth_equalityI) (auto simp: less_Suc_eq numeral_2_eq_2)
  then show ?thesis using calls d(1) by simp
qed

section \<open>Properties of buildSubdomainRelations\<close>

lemma split_js_not_Nil: "split_js sep s \<noteq> []"
  by (induction s) simp_all

lemma split_js_length: "1 < length (split_js sep s) \<longleftrightarrow> sep \<in> set s"
proof (induction s)
  case Nil
  then show ?case by simp
next
  case (Cons c cs)
  have "0 < length (split_js sep cs)" using split_js_not_Nil[of sep cs] by simp
  then have "length (tl (split_js sep cs)) = length (split_js sep cs) - 1" by simp
  then show ?case using Cons \<open>0 < length (split_js sep cs)\<close> by auto
qed

lemma join_js_Cons_head: "join_js sep ((c # h) # t) = c # join_js sep (h # t)"
  by (cases t) simp_all

lemma join_split_js: "join_js sep (split_js sep s) = s"
proof (induction s)
  case Nil
  then show ?case by simp
next
  case (Cons c cs)
  obtain h t where ht: "split_js sep cs = h # t"
    using split_js_not_Nil[of sep cs] by (cases "split_js sep cs") simp_all
  show ?case
  proof (cases "c = sep")
    case True
    then show ?thesis using Cons ht by simp
  next
    case False
    then show ?thesis using Cons ht by (simp add: join_js_Cons_head)
  qed
qed

lemma join_tail_split_js:
  "sep \<in> set s \<Longrightarrow>
     join_js sep (drop 1 (split_js sep s)) = drop 1 (dropWhile (\<lambda>c. c \<noteq> sep) s)"
proof (induction s)
  case Nil
  then show ?case by simp
next
  case (Cons c cs)
  show ?case
  proof (cases "c = sep")
    case True
    then show ?thesis by (simp add: join_split_js)
  next
    case False
    then have "sep \<in> set cs" using Cons.prems by simp
    from Cons.IH[OF this] show ?thesis using False by (simp add: drop_Suc)
  qed
qed

lemma parentDomain_eq:
  "CHR ''.'' \<in> set n \<Longrightarrow> join_js (CHR ''.'') (drop 1 (split_js (CHR ''.'') n)) = parentName n"
  unfolding parentName_def by (rule join_tail_split_js)

lemma pushNew_snoc:
  "pushNew listed (ns @ [n]) =
     (if n \<in> set (pushNew listed ns) then pushNew listed ns else pushNew listed ns @ [n])"
  by (simp add: pushNew_def)

lemma pushNew_Nil: "pushNew listed [] = listed"
  by (simp add: pushNew_def)

lemma pushNew_Cons:
  "pushNew listed (n # ns) = pushNew (if n \<in> set listed then listed else listed @ [n]) ns"
  by (simp add: pushNew_def)

lemma pushNew_listed: "set ns \<subseteq> set listed \<Longrightarrow> pushNew listed ns = listed"
  by (induction ns) (simp_all add: pushNew_Nil pushNew_Cons)

lemma set_pushNew: "set (pushNew listed ns) = set listed \<union> set ns"
  by (induction ns arbitrary: listed) (auto simp: pushNew_Nil pushNew_Cons)

lemma pushNew_idem: "pushNew (pushNew listed ns) ns = pushNew listed ns"
  by (rule pushNew_listed) (simp add: set_pushNew)

lemma pushNew_distinct:
  "distinct ns \<Longrightarrow> pushNew listed ns = listed @ filter (\<lambda>n. n \<notin> set listed) ns"
proof (induction ns arbitrary: listed)
  case Nil
  then show ?case by (simp add: pushNew_Nil)
next
  case (Cons n ns)
  then have d: "distinct ns" and nn: "n \<notin> set ns" by simp_all
  show ?case
  proof (cases "n \<in> set listed")
    case True
    then show ?thesis using Cons.IH[OF d, of listed] by (simp add: pushNew_Cons)
  next
    case False
    have "filter (\<lambda>x. x \<notin> set (listed @ [n])) ns = filter (\<lambda>x. x \<notin> set listed) ns"
      using nn by (intro filter_cong) auto
    then show ?thesis using False Cons.IH[OF d, of "listed @ [n]"] by (simp add: pushNew_Cons)
  qed
qed

lemma index_map_Suc:
  "fold (\<lambda>j m. m(f j \<mapsto> j)) [0..<Suc n] Map.empty =
     (fold (\<lambda>j m. m(f j \<mapsto> j)) [0..<n] Map.empty)(f n \<mapsto> n)"
  by simp

lemma index_map_range:
  "fold (\<lambda>j m. m(f j \<mapsto> j)) [0..<n] Map.empty k = Some p \<Longrightarrow> p < n \<and> f p = k"
proof (induction n arbitrary: p)
  case 0
  then show ?case by simp
next
  case (Suc n)
  define g where "g = fold (\<lambda>j m. m(f j \<mapsto> j)) [0..<n] Map.empty"
  have upd: "(g(f n \<mapsto> n)) k = Some p" using Suc.prems by (simp only: index_map_Suc g_def)
  show ?case
  proof (cases "f n = k")
    case True
    then have "p = n" using upd by simp
    then show ?thesis using True by simp
  next
    case False
    then have "g k = Some p" using upd by simp
    then have "p < n \<and> f p = k" unfolding g_def by (rule Suc.IH)
    then show ?thesis by simp
  qed
qed

lemma index_map_inj:
  "inj_on f {..<n} \<Longrightarrow> p < n \<Longrightarrow> fold (\<lambda>j m. m(f j \<mapsto> j)) [0..<n] Map.empty (f p) = Some p"
proof (induction n)
  case 0
  then show ?case by simp
next
  case (Suc n)
  define g where "g = fold (\<lambda>j m. m(f j \<mapsto> j)) [0..<n] Map.empty"
  show ?case
  proof (cases "p = n")
    case True
    then show ?thesis by (simp only: index_map_Suc) simp
  next
    case False
    then have pn: "p < n" using Suc.prems(2) by simp
    have inj: "inj_on f {..<n}" using Suc.prems(1) by (rule inj_on_subset) auto
    have "n \<in> {..<Suc n}" "p \<in> {..<Suc n}" using pn by simp_all
    then have neq: "f n \<noteq> f p" using inj_onD[OF Suc.prems(1), of n p] pn by auto
    have ih: "g (f p) = Some p" unfolding g_def by (rule Suc.IH[OF inj pn])
    have "(g(f n \<mapsto> n)) (f p) = Some p" using neq ih by simp
    then show ?thesis by (simp only: index_map_Suc g_def)
  qed
qed

lemma domainMap_of_range: "domainMap_of ds k = Some p \<Longrightarrow> p < length ds \<and> name (ds ! p) = k"
  unfolding domainMap_of_def by (rule index_map_range)

lemma domainMap_of_distinct:
  assumes "distinct (map name ds)"
  shows "domainMap_of ds k = Some p \<longleftrightarrow> p < length ds \<and> name (ds ! p) = k"
proof
  assume "domainMap_of ds k = Some p"
  then show "p < length ds \<and> name (ds ! p) = k" by (rule domainMap_of_range)
next
  assume a: "p < length ds \<and> name (ds ! p) = k"
  have "inj_on (\<lambda>j. name (ds ! j)) {..<length ds}"
    using assms by (auto simp: inj_on_def distinct_conv_nth)
  from index_map_inj[OF this, of p] a show "domainMap_of ds k = Some p"
    by (simp add: domainMap_of_def)
qed

lemma domainMap_of_names:
  assumes "map name ds' = map name ds"
  shows "domainMap_of ds' = domainMap_of ds"
proof -
  have len: "length ds' = length ds" using assms by (metis length_map)
  have "\<And>j. j < length ds \<Longrightarrow> name (ds' ! j) = name (ds ! j)"
    using assms len by (metis nth_map)
  then have "fold (\<lambda>j m. m(name (ds' ! j) \<mapsto> j)) [0..<length ds] Map.empty
           = fold (\<lambda>j m. m(name (ds ! j) \<mapsto> j)) [0..<length ds] Map.empty"
    by (intro fold_cong) auto
  then show ?thesis by (simp add: domainMap_of_def len)
qed

lemma childNames_names:
  "map name ds' = map name ds \<Longrightarrow> childNames m p ds' = childNames m p ds"
proof (induction ds arbitrary: ds')
  case Nil
  then show ?case by (simp add: childNames_def)
next
  case (Cons d ds)
  then obtain d' ds'' where e: "ds' = d' # ds''" "name d' = name d" "map name ds'' = map name ds"
    by (cases ds') auto
  from Cons.IH[OF e(3)] show ?case using e by (simp add: childNames_def)
qed

lemma childNames_snoc:
  "childNames m p (ds @ [d]) =
     childNames m p ds @
       (if CHR ''.'' \<in> set (name d) \<and> m (parentName (name d)) = Some p then [name d] else [])"
  by (simp add: childNames_def)

lemma linkStep_cases:
  "linkStep m j cur =
     (if CHR ''.'' \<in> set (name (cur ! j))
      then (case m (parentName (name (cur ! j))) of
              None \<Rightarrow> cur
            | Some p \<Rightarrow>
                if name (cur ! j) \<notin> set (subdomains (cur ! p))
                then cur[p := (cur ! p)\<lparr>subdomains := subdomains (cur ! p) @ [name (cur ! j)]\<rparr>]
                else cur)
      else cur)"
proof (cases "CHR ''.'' \<in> set (name (cur ! j))")
  case True
  then have "1 < length (split_js (CHR ''.'') (name (cur ! j)))"
    using split_js_length[of "CHR ''.''" "name (cur ! j)"] by blast
  moreover have "join_js (CHR ''.'') (drop 1 (split_js (CHR ''.'') (name (cur ! j))))
      = parentName (name (cur ! j))" using True by (rule parentDomain_eq)
  ultimately show ?thesis using True by (simp only: linkStep_def Let_def if_True)
next
  case False
  then have "\<not> 1 < length (split_js (CHR ''.'') (name (cur ! j)))"
    using split_js_length[of "CHR ''.''" "name (cur ! j)"] by blast
  then show ?thesis using False by (simp add: linkStep_def Let_def)
qed

lemma linkStep_fold:
  assumes "\<forall>k p. m k = Some p \<longrightarrow> p < length ds"
  shows "n \<le> length ds \<Longrightarrow>
     length (fold (linkStep m) [0..<n] ds) = length ds
     \<and> (\<forall>p. p < length ds \<longrightarrow>
           fold (linkStep m) [0..<n] ds ! p =
             (ds ! p)\<lparr>subdomains := pushNew (subdomains (ds ! p)) (childNames m p (take n ds))\<rparr>)"
proof (induction n)
  case 0
  then show ?case by (simp add: childNames_def pushNew_Nil)
next
  case (Suc n)
  let ?cur = "fold (linkStep m) [0..<n] ds"
  let ?nm = "name (ds ! n)"
  have n: "n < length ds" using Suc.prems by simp
  have len: "length ?cur = length ds"
    and inv: "\<And>p. p < length ds \<Longrightarrow>
        ?cur ! p = (ds ! p)\<lparr>subdomains := pushNew (subdomains (ds ! p)) (childNames m p (take n ds))\<rparr>"
    using Suc.IH n by simp_all
  have nm: "name (?cur ! n) = ?nm" using inv[OF n] by simp
  have tk: "take (Suc n) ds = take n ds @ [ds ! n]" using n by (rule take_Suc_conv_app_nth)
  have step: "fold (linkStep m) [0..<Suc n] ds = linkStep m n ?cur" by simp
  show ?case
  proof (cases "CHR ''.'' \<in> set ?nm")
    case False
    then have "linkStep m n ?cur = ?cur" by (simp add: linkStep_cases nm)
    moreover have "\<And>p. childNames m p (take (Suc n) ds) = childNames m p (take n ds)"
      using False by (simp add: tk childNames_snoc)
    ultimately show ?thesis using len inv by (simp only: step) simp
  next
    case True
    show ?thesis
    proof (cases "m (parentName ?nm)")
      case None
      then have "linkStep m n ?cur = ?cur" using True by (simp add: linkStep_cases nm)
      moreover have "\<And>p. childNames m p (take (Suc n) ds) = childNames m p (take n ds)"
        using None by (simp add: tk childNames_snoc)
      ultimately show ?thesis using len inv by (simp only: step) simp
    next
      case (Some q)
      then have q: "q < length ds" using assms by blast
      let ?listed = "pushNew (subdomains (ds ! q)) (childNames m q (take n ds))"
      have sq: "subdomains (?cur ! q) = ?listed" using inv[OF q] by simp
      have other: "\<And>p. p \<noteq> q \<Longrightarrow> childNames m p (take (Suc n) ds) = childNames m p (take n ds)"
        using Some by (simp add: tk childNames_snoc)
      have mine: "childNames m q (take (Suc n) ds) = childNames m q (take n ds) @ [?nm]"
        using Some True by (simp add: tk childNames_snoc)
      show ?thesis
      proof (cases "?nm \<in> set ?listed")
        case True
        then have run: "linkStep m n ?cur = ?cur" using Some \<open>CHR ''.'' \<in> set ?nm\<close>
          by (simp add: linkStep_cases nm sq)
        have "pushNew (subdomains (ds ! q)) (childNames m q (take (Suc n) ds)) = ?listed"
          using True by (simp add: mine pushNew_snoc)
        then have "\<And>p. p < length ds \<Longrightarrow>
            ?cur ! p = (ds ! p)\<lparr>subdomains := pushNew (subdomains (ds ! p)) (childNames m p (take (Suc n) ds))\<rparr>"
          using inv other by (metis)
        then show ?thesis using len by (simp only: step run) simp
      next
        case False
        then have run: "linkStep m n ?cur =
            ?cur[q := (?cur ! q)\<lparr>subdomains := ?listed @ [?nm]\<rparr>]"
          using Some \<open>CHR ''.'' \<in> set ?nm\<close> by (simp add: linkStep_cases nm sq)
        have new: "pushNew (subdomains (ds ! q)) (childNames m q (take (Suc n) ds)) = ?listed @ [?nm]"
          using False by (simp add: mine pushNew_snoc)
        have "\<And>p. p < length ds \<Longrightarrow>
            (?cur[q := (?cur ! q)\<lparr>subdomains := ?listed @ [?nm]\<rparr>]) ! p =
              (ds ! p)\<lparr>subdomains := pushNew (subdomains (ds ! p)) (childNames m p (take (Suc n) ds))\<rparr>"
        proof -
          fix p assume p: "p < length ds"
          show "(?cur[q := (?cur ! q)\<lparr>subdomains := ?listed @ [?nm]\<rparr>]) ! p =
              (ds ! p)\<lparr>subdomains := pushNew (subdomains (ds ! p)) (childNames m p (take (Suc n) ds))\<rparr>"
          proof (cases "p = q")
            case True
            then show ?thesis using q len inv[OF q] new by simp
          next
            case False
            then show ?thesis using inv[OF p] other[OF False] by simp
          qed
        qed
        then show ?thesis using len by (simp only: step run) simp
      qed
    qed
  qed
qed

lemma buildSubdomainRelations_nth:
  "length (buildSubdomainRelations ds) = length ds
   \<and> (\<forall>p. p < length ds \<longrightarrow>
         buildSubdomainRelations ds ! p =
           (ds ! p)\<lparr>subdomains :=
              pushNew (subdomains (ds ! p)) (childNames (domainMap_of ds) p ds)\<rparr>)"
proof -
  have "\<forall>k p. domainMap_of ds k = Some p \<longrightarrow> p < length ds"
    using domainMap_of_range by blast
  from linkStep_fold[OF this, of "length ds"] show ?thesis
    by (simp add: buildSubdomainRelations_def)
qed

lemma buildSubdomainRelations_names:
  "map name (buildSubdomainRelations ds) = map name ds"
  using buildSubdomainRelations_nth[of ds] by (intro nth_equalityI) simp_all

lemma childNames_distinct:
  assumes "distinct (map name ds)" and "p < length ds"
  shows "childNames (domainMap_of ds) p ds =
     map name (filter (\<lambda>d. CHR ''.'' \<in> set (name d) \<and> parentName (name d) = name (ds ! p)) ds)"
proof -
  have "\<And>k. (domainMap_of ds k = Some p) = (k = name (ds ! p))"
    using domainMap_of_distinct[OF assms(1)] assms(2) by auto
  then show ?thesis by (simp only: childNames_def)
qed

text \<open>
  C6. For records with unique names, \<open>buildSubdomainRelations\<close> returns the records
  in the same order, each unchanged but for its subdomains: to the subdomains of a
  record it appends the names of the records whose name has a \<open>.\<close> and whose parent
  name (the name with its first label removed) is the name of that record, in input
  order, leaving out the names already listed. A record whose parent name is the name
  of no record is listed in no subdomains list that did not list it before, and
  nothing fails. The parent name is what the source computes with \<open>split\<close>,
  \<open>slice(1)\<close> and \<open>join\<close>, and a name has more than one part exactly when it has a
  \<open>.\<close>.
\<close>

theorem buildSubdomainRelations_links:
  assumes "distinct (map name domains)"
  shows "length (buildSubdomainRelations domains) = length domains
   \<and> (\<forall>p. p < length domains \<longrightarrow>
         buildSubdomainRelations domains ! p =
           (domains ! p)\<lparr>subdomains :=
              subdomains (domains ! p) @
              filter (\<lambda>n. n \<notin> set (subdomains (domains ! p)))
                (map name (filter (\<lambda>d. CHR ''.'' \<in> set (name d)
                                        \<and> parentName (name d) = name (domains ! p)) domains))\<rparr>)
   \<and> (\<forall>d p. d \<in> set domains \<and> parentName (name d) \<notin> set (map name domains)
              \<and> p < length domains
              \<and> name d \<in> set (subdomains (buildSubdomainRelations domains ! p))
         \<longrightarrow> name d \<in> set (subdomains (domains ! p)))
   \<and> (\<forall>n. (1 < length (split_js (CHR ''.'') n) \<longleftrightarrow> CHR ''.'' \<in> set n)
        \<and> (CHR ''.'' \<in> set n \<longrightarrow>
              join_js (CHR ''.'') (drop 1 (split_js (CHR ''.'') n)) = parentName n))"
proof -
  have len: "length (buildSubdomainRelations domains) = length domains"
    using buildSubdomainRelations_nth[of domains] by simp
  have nth: "\<forall>p. p < length domains \<longrightarrow>
         buildSubdomainRelations domains ! p =
           (domains ! p)\<lparr>subdomains :=
              subdomains (domains ! p) @
              filter (\<lambda>n. n \<notin> set (subdomains (domains ! p)))
                (map name (filter (\<lambda>d. CHR ''.'' \<in> set (name d)
                                        \<and> parentName (name d) = name (domains ! p)) domains))\<rparr>"
  proof (intro allI impI)
    fix p assume p: "p < length domains"
    let ?ch = "map name (filter (\<lambda>d. CHR ''.'' \<in> set (name d)
                                        \<and> parentName (name d) = name (domains ! p)) domains)"
    have ch: "childNames (domainMap_of domains) p domains = ?ch"
      using assms p by (rule childNames_distinct)
    have "distinct ?ch" using assms by (rule distinct_map_filter)
    then have "pushNew (subdomains (domains ! p)) ?ch =
        subdomains (domains ! p) @ filter (\<lambda>n. n \<notin> set (subdomains (domains ! p))) ?ch"
      by (rule pushNew_distinct)
    then show "buildSubdomainRelations domains ! p =
           (domains ! p)\<lparr>subdomains :=
              subdomains (domains ! p) @ filter (\<lambda>n. n \<notin> set (subdomains (domains ! p))) ?ch\<rparr>"
      using buildSubdomainRelations_nth[of domains] p ch by simp
  qed
  have orphan: "\<forall>d p. d \<in> set domains \<and> parentName (name d) \<notin> set (map name domains)
              \<and> p < length domains
              \<and> name d \<in> set (subdomains (buildSubdomainRelations domains ! p))
         \<longrightarrow> name d \<in> set (subdomains (domains ! p))"
  proof (intro allI impI, elim conjE)
    fix d p
    assume d: "d \<in> set domains" and np: "parentName (name d) \<notin> set (map name domains)"
      and p: "p < length domains"
      and mem: "name d \<in> set (subdomains (buildSubdomainRelations domains ! p))"
    show "name d \<in> set (subdomains (domains ! p))"
    proof (rule ccontr)
      let ?P = "\<lambda>d. CHR ''.'' \<in> set (name d) \<and> parentName (name d) = name (domains ! p)"
      assume out: "name d \<notin> set (subdomains (domains ! p))"
      have "subdomains (buildSubdomainRelations domains ! p) =
          subdomains (domains ! p) @
            filter (\<lambda>n. n \<notin> set (subdomains (domains ! p))) (map name (filter ?P domains))"
        using nth p by simp
      then have "name d \<in> set (subdomains (domains ! p))
          \<or> name d \<in> set (filter (\<lambda>n. n \<notin> set (subdomains (domains ! p))) (map name (filter ?P domains)))"
        using mem by (simp only: set_append Un_iff)
      then have "name d \<in> name ` set (filter ?P domains)" using out by simp
      then obtain d' where d': "d' \<in> set (filter ?P domains)" "name d = name d'" by (rule imageE)
      then have "parentName (name d) = name (domains ! p)" by simp
      moreover have "name (domains ! p) \<in> set (map name domains)" using p by simp
      ultimately show False using np by simp
    qed
  qed
  have names: "\<forall>n. (1 < length (split_js (CHR ''.'') n) \<longleftrightarrow> CHR ''.'' \<in> set n)
        \<and> (CHR ''.'' \<in> set n \<longrightarrow>
              join_js (CHR ''.'') (drop 1 (split_js (CHR ''.'') n)) = parentName n)"
    using split_js_length parentDomain_eq by blast
  show ?thesis
    apply (intro conjI)
       apply (rule len)
      apply (rule nth)
     apply (rule orphan)
    apply (rule names)
    done
qed

text \<open>
  C7. Relationship building is idempotent: a second run on the result of the first
  changes no record, so no subdomains list gets a duplicate. This holds for every
  list of records, with unique names or not.
\<close>

theorem buildSubdomainRelations_idempotent:
  "buildSubdomainRelations (buildSubdomainRelations domains) = buildSubdomainRelations domains"
proof (rule nth_equalityI)
  let ?rs = "buildSubdomainRelations domains"
  show "length (buildSubdomainRelations ?rs) = length ?rs"
    using buildSubdomainRelations_nth[of ?rs] by simp
  fix p assume "p < length (buildSubdomainRelations ?rs)"
  then have p: "p < length ?rs" using buildSubdomainRelations_nth[of ?rs] by simp
  then have p': "p < length domains" using buildSubdomainRelations_nth[of domains] by simp
  have names: "map name ?rs = map name domains" by (rule buildSubdomainRelations_names)
  have m: "domainMap_of ?rs = domainMap_of domains" using names by (rule domainMap_of_names)
  have ch: "childNames (domainMap_of ?rs) p ?rs = childNames (domainMap_of domains) p domains"
    by (simp only: m childNames_names[OF names])
  have first: "subdomains (?rs ! p) =
      pushNew (subdomains (domains ! p)) (childNames (domainMap_of domains) p domains)"
    using buildSubdomainRelations_nth[of domains] p' by simp
  have "buildSubdomainRelations ?rs ! p =
      (?rs ! p)\<lparr>subdomains := pushNew (subdomains (?rs ! p)) (childNames (domainMap_of ?rs) p ?rs)\<rparr>"
    using buildSubdomainRelations_nth[of ?rs] p by simp
  also have "pushNew (subdomains (?rs ! p)) (childNames (domainMap_of ?rs) p ?rs) = subdomains (?rs ! p)"
    unfolding ch first by (rule pushNew_idem)
  finally show "buildSubdomainRelations ?rs ! p = ?rs ! p" by simp
qed

theorem buildSubdomainRelations_links_witness:
  "distinct (map name
     [\<lparr>id_d = ''1'', name = ''c'', did = [], note_d = [], allowSubdomain = True, owner = ''0x1'',
        subdomains = []\<rparr>,
      \<lparr>id_d = ''2'', name = ''b.c'', did = [], note_d = [], allowSubdomain = True, owner = ''0x2'',
        subdomains = []\<rparr>,
      \<lparr>id_d = ''3'', name = ''a.b.c'', did = [], note_d = [], allowSubdomain = True, owner = ''0x3'',
        subdomains = []\<rparr>,
      \<lparr>id_d = ''4'', name = ''x.y'', did = [], note_d = [], allowSubdomain = True, owner = ''0x4'',
        subdomains = []\<rparr>,
      \<lparr>id_d = ''5'', name = ''d.c'', did = [], note_d = [], allowSubdomain = True, owner = ''0x5'',
        subdomains = []\<rparr>])
   \<and> map subdomains (buildSubdomainRelations
     [\<lparr>id_d = ''1'', name = ''c'', did = [], note_d = [], allowSubdomain = True, owner = ''0x1'',
        subdomains = []\<rparr>,
      \<lparr>id_d = ''2'', name = ''b.c'', did = [], note_d = [], allowSubdomain = True, owner = ''0x2'',
        subdomains = []\<rparr>,
      \<lparr>id_d = ''3'', name = ''a.b.c'', did = [], note_d = [], allowSubdomain = True, owner = ''0x3'',
        subdomains = []\<rparr>,
      \<lparr>id_d = ''4'', name = ''x.y'', did = [], note_d = [], allowSubdomain = True, owner = ''0x4'',
        subdomains = []\<rparr>,
      \<lparr>id_d = ''5'', name = ''d.c'', did = [], note_d = [], allowSubdomain = True, owner = ''0x5'',
        subdomains = []\<rparr>])
     = [[''b.c'', ''d.c''], [''a.b.c''], [], [], []]"
  (is "distinct (map name ?ds) \<and> map subdomains (buildSubdomainRelations ?ds) = ?subs")
proof -
  have d: "distinct (map name ?ds)" by simp
  note t = buildSubdomainRelations_links[OF d]
  have "length (buildSubdomainRelations ?ds) = length ?ds" using t by (rule conjunct1)
  then have len: "length (buildSubdomainRelations ?ds) = 5" by simp
  note nth = conjunct1[OF conjunct2[OF t]]
  have s0: "subdomains (buildSubdomainRelations ?ds ! 0) = [''b.c'', ''d.c'']"
    using mp[OF spec[OF nth, of 0]] by (simp add: parentName_def)
  have s1: "subdomains (buildSubdomainRelations ?ds ! 1) = [''a.b.c'']"
    using mp[OF spec[OF nth, of 1]] by (simp add: parentName_def)
  have s2: "subdomains (buildSubdomainRelations ?ds ! 2) = []"
    using mp[OF spec[OF nth, of 2]] by (simp add: parentName_def)
  have s3: "subdomains (buildSubdomainRelations ?ds ! 3) = []"
    using mp[OF spec[OF nth, of 3]] by (simp add: parentName_def)
  have s4: "subdomains (buildSubdomainRelations ?ds ! 4) = []"
    using mp[OF spec[OF nth, of 4]] by (simp add: parentName_def)
  have "map subdomains (buildSubdomainRelations ?ds) = ?subs"
  proof (rule nth_equalityI)
    show "length (map subdomains (buildSubdomainRelations ?ds)) = length ?subs" using len by simp
    fix p assume "p < length (map subdomains (buildSubdomainRelations ?ds))"
    then have "p < 5" using len by simp
    then consider "p = 0" | "p = 1" | "p = 2" | "p = 3" | "p = 4" by linarith
    then show "map subdomains (buildSubdomainRelations ?ds) ! p = ?subs ! p"
      using s0 s1 s2 s3 s4 len by cases simp_all
  qed
  then show ?thesis using d by blast
qed

text \<open>
  The first label is the leftmost one: the parent of \<open>a.b\<close> is \<open>b\<close>. On the records
  \<open>a\<close>, \<open>a.b\<close>, \<open>a.b.c\<close> and \<open>x.y\<close> no parent name (\<open>b\<close>, \<open>b.c\<close>, \<open>y\<close>) names a
  record, and nothing is linked.
\<close>

lemma buildSubdomainRelations_first_label_removed:
  "map subdomains (buildSubdomainRelations
     [\<lparr>id_d = ''1'', name = ''a'', did = [], note_d = [], allowSubdomain = True, owner = ''0x1'',
        subdomains = []\<rparr>,
      \<lparr>id_d = ''2'', name = ''a.b'', did = [], note_d = [], allowSubdomain = True, owner = ''0x2'',
        subdomains = []\<rparr>,
      \<lparr>id_d = ''3'', name = ''a.b.c'', did = [], note_d = [], allowSubdomain = True, owner = ''0x3'',
        subdomains = []\<rparr>,
      \<lparr>id_d = ''4'', name = ''x.y'', did = [], note_d = [], allowSubdomain = True, owner = ''0x4'',
        subdomains = []\<rparr>])
     = [[], [], [], []]"
  by code_simp

section \<open>The run and its configuration\<close>

lemma promiseAll_Inl: "promiseAll ps = Inl e \<Longrightarrow> \<exists>t. (t, Inl e) \<in> set ps"
proof -
  assume a: "promiseAll ps = Inl e"
  then obtain t where "firstRejected ps = Some (t, e)"
    by (auto simp: promiseAll_def split: option.splits prod.splits)
  from firstRejected_Some[OF this] show ?thesis by blast
qed

lemma concurrentMap_loop_Inl:
  fixes fn :: "'a \<Rightarrow> nat \<times> ('t + 'r)" and e :: 't and st :: "'a list"
  assumes "concurrentMap_loop items fn c i results started = Some (Inl e, st)"
  shows "\<exists>u. snd (fn u) = Inl e"
proof -
  have "\<forall>e' st'. (Inl e :: 't + 'r list, st) = (Inl e', st') \<longrightarrow> (\<exists>u. snd (fn u) = Inl e')"
  proof (rule concurrentMap_loop.raw_induct
          [where P = "\<lambda>items fn c i results started y.
                        \<forall>e st. y = (Inl e, st) \<longrightarrow> (\<exists>u. snd (fn u) = Inl e)", OF _ assms],
         goal_cases)
    case (1 f its g d j rs sts y)
    show ?case
    proof (intro allI impI)
      fix e' st' assume y: "y = (Inl e', st')"
      show "\<exists>u. snd (g u) = Inl e'"
      proof (cases "j < int (length its)")
        case False
        then show ?thesis using 1(2) y by simp
      next
        case True
        let ?chunk = "jsSlice its j (j + d)"
        show ?thesis
        proof (cases "promiseAll (map g ?chunk)")
          case (Inl e0)
          then have "e0 = e'" using 1(2) y True by (simp add: Let_def)
          then obtain t where "(t, Inl e') \<in> set (map g ?chunk)"
            using promiseAll_Inl[OF Inl] by blast
          then obtain u where "g u = (t, Inl e')" by auto
          then have "snd (g u) = Inl e'" by simp
          then show ?thesis ..
        next
          case (Inr vs)
          then have "f its g d (j + d) (rs @ vs) (sts @ ?chunk) = Some y"
            using 1(2) True by (simp add: Let_def)
          from 1(1)[OF this] y show ?thesis by blast
        qed
      qed
    qed
  qed
  then show ?thesis by blast
qed

lemma decodeTokenIds_Inl: "decodeTokenIds C results tokenIds = Inl t \<Longrightarrow> \<exists>e. t = Rethrown e"
  by (induction results arbitrary: tokenIds) (auto split: sum.splits)

lemma decodeDetails_Inl:
  "decodeDetails C tokenIds results idxs domains = Inl t \<Longrightarrow> \<exists>e. t = Rethrown e"
  by (induction idxs arbitrary: domains) (auto split: sum.splits)

lemma executeMulticallWithRetry_Inl:
  "fst (executeMulticallWithRetry cfg C calls) = Inl t \<Longrightarrow>
     (\<exists>e. t = Rethrown e) \<or> t = Error ''Multicall failed''"
  unfolding executeMulticallWithRetry_def by (rule retry_loop_not_wrapped)

lemma multicallTokenByIndex_Inl:
  "multicallTokenByIndex cfg C s e = Inl t \<Longrightarrow> (\<exists>e. t = Rethrown e) \<or> t = Error ''Multicall failed''"
  using executeMulticallWithRetry_Inl[of cfg C "tokenByIndexCalls C s e"] decodeTokenIds_Inl[of C _ "[]" t]
  by (auto simp: multicallTokenByIndex_def split: sum.splits)

lemma multicallGetDetails_Inl:
  "multicallGetDetails cfg C tokenIds = Inl t \<Longrightarrow> (\<exists>e. t = Rethrown e) \<or> t = Error ''Multicall failed''"
  using executeMulticallWithRetry_Inl[of cfg C "detailCalls C tokenIds []"]
        decodeDetails_Inl[of C tokenIds _ "[0..<length tokenIds]" "[]" t]
  by (auto simp: multicallGetDetails_def split: sum.splits)

lemma batchGetTokenIds_Inl:
  assumes "batchGetTokenIds cfg C n = Some (Inl t)"
  shows "(\<exists>e. t = Rethrown e) \<or> t = Error ''Multicall failed''"
proof -
  let ?fn = "\<lambda>batch::Batch. (latency C (tokenByIndexCalls C (start batch) (end_b batch)),
                   multicallTokenByIndex cfg C (start batch) (end_b batch))"
  obtain batches where b: "createBatches n (batchSize_c cfg) = Some batches"
    using assms by (cases "createBatches n (batchSize_c cfg)") (simp_all add: batchGetTokenIds_def)
  obtain r st where r: "concurrentMap batches ?fn (concurrency_c cfg) = Some (r, st)"
    using assms b
    by (cases "concurrentMap batches ?fn (concurrency_c cfg)") (auto simp: batchGetTokenIds_def)
  have "r = Inl t" using assms b r by (cases r) (simp_all add: batchGetTokenIds_def)
  then have "concurrentMap batches ?fn (concurrency_c cfg) = Some (Inl t, st)" using r by simp
  then have "\<exists>u. snd (?fn u) = Inl t"
    using concurrentMap_loop_Inl[of batches ?fn "concurrency_c cfg" 0 "[]" "[]" t st]
    by (simp add: concurrentMap_def)
  then obtain u :: Batch where "multicallTokenByIndex cfg C (start u) (end_b u) = Inl t" by auto
  then show ?thesis by (rule multicallTokenByIndex_Inl)
qed

lemma batchGetDomainDetails_Inl:
  assumes "batchGetDomainDetails cfg C tokenIds = Some (Inl t)"
  shows "(\<exists>e. t = Rethrown e) \<or> t = Error ''Multicall failed''"
proof -
  let ?fn = "\<lambda>batch. (latency C (detailCalls C batch []), multicallGetDetails cfg C batch)"
  obtain batches where b: "createBatchesFromArray tokenIds (batchSize_c cfg div 2) = Some batches"
    using assms
    by (cases "createBatchesFromArray tokenIds (batchSize_c cfg div 2)")
       (simp_all add: batchGetDomainDetails_def)
  obtain r st where r: "concurrentMap batches ?fn (concurrency_c cfg) = Some (r, st)"
    using assms b
    by (cases "concurrentMap batches ?fn (concurrency_c cfg)") (auto simp: batchGetDomainDetails_def)
  have "r = Inl t" using assms b r by (cases r) (simp_all add: batchGetDomainDetails_def)
  then have "concurrentMap batches ?fn (concurrency_c cfg) = Some (Inl t, st)" using r by simp
  then have "\<exists>u. snd (?fn u) = Inl t"
    using concurrentMap_loop_Inl[of batches ?fn "concurrency_c cfg" 0 "[]" "[]" t st]
    by (simp add: concurrentMap_def)
  then obtain u where "multicallGetDetails cfg C u = Inl t" by auto
  then show ?thesis by (rule multicallGetDetails_Inl)
qed

lemma indexAllDomains_Inl:
  assumes "indexAllDomains cfg C = Some (Inl t)"
  shows "(\<exists>e. t = Rethrown e) \<or> t = Error ''Multicall failed''"
proof (cases "totalSupply C")
  case (Inl e)
  then show ?thesis using assms by (auto simp: indexAllDomains_def getTotalSupply_def)
next
  case (Inr n)
  note sup = this
  show ?thesis
  proof (cases "batchGetTokenIds cfg C n")
    case None
    then show ?thesis using assms sup by (simp add: indexAllDomains_def getTotalSupply_def)
  next
    case (Some r)
    show ?thesis
    proof (cases r)
      case (Inl t')
      then have "t' = t" using assms sup Some by (simp add: indexAllDomains_def getTotalSupply_def)
      then show ?thesis using batchGetTokenIds_Inl[of cfg C n t] Some Inl by simp
    next
      case (Inr tokenIds)
      then have "batchGetDomainDetails cfg C tokenIds = Some (Inl t)"
        using assms sup Some
        by (auto simp: indexAllDomains_def getTotalSupply_def split: option.splits sum.splits)
      then show ?thesis by (rule batchGetDomainDetails_Inl)
    qed
  qed
qed

lemma indexAllDomains_empty_registry:
  assumes "totalSupply C = Inr 0"
  shows "indexAllDomains cfg C = Some (Inr [])"
proof -
  have b: "\<And>bs. createBatches 0 bs = Some []"
    unfolding createBatches_def by (subst createBatches_loop.simps) simp
  have m: "\<And>fn c. concurrentMap [] fn c = Some (Inr [], [])"
    unfolding concurrentMap_def by (subst concurrentMap_loop.simps) simp
  have a: "\<And>c. createBatchesFromArray ([] :: string list) c = Some []"
    unfolding createBatchesFromArray_def by (subst createBatchesFromArray_loop.simps) simp
  have ids: "batchGetTokenIds cfg C 0 = Some (Inr [])"
    by (simp add: batchGetTokenIds_def b m)
  have det: "batchGetDomainDetails cfg C [] = Some (Inr [])"
    by (simp add: batchGetDomainDetails_def a m)
  show ?thesis
    using assms by (simp add: indexAllDomains_def getTotalSupply_def ids det buildSubdomainRelations_def)
qed

text \<open>
  C9, as amended. No configuration is checked: the constructor stores the
  configuration as it is given and the run proceeds with it, whatever the values of
  \<open>batchSize\<close>, \<open>concurrency\<close> and \<open>retryAttempts\<close>. On an empty registry the run of
  every configuration returns the empty list. A run that fails does so with an error
  raised by a collaborator and passed on, or with \<open>Error('Multicall failed')\<close>; it
  never fails with a \<open>ConfigError\<close>. With \<open>retryAttempts < 1\<close> the aggregated call
  is not attempted at all and \<open>Error('Multicall failed')\<close> is raised.
\<close>

theorem indexAllDomains_no_validation:
  "(totalSupply C = Inr 0 \<longrightarrow> indexAllDomains cfg C = Some (Inr []))
   \<and> (\<forall>t. indexAllDomains cfg C = Some (Inl t) \<longrightarrow>
          (\<exists>e. t = Rethrown e) \<or> t = Error ''Multicall failed'')
   \<and> indexAllDomains cfg C \<noteq> Some (Inl ConfigError)
   \<and> (retryAttempts_c cfg < 1 \<longrightarrow>
          executeMulticallWithRetry cfg C calls = (Inl (Error ''Multicall failed''), []))"
proof -
  have "indexAllDomains cfg C \<noteq> Some (Inl ConfigError)"
    using indexAllDomains_Inl[of cfg C ConfigError] by auto
  then show ?thesis
    using indexAllDomains_empty_registry[of C cfg] indexAllDomains_Inl[of cfg C]
      retry_no_attempts[of cfg C calls]
    by blast
qed

theorem indexAllDomains_no_validation_witness:
  "indexAllDomains
      \<lparr>rpcUrl = ''http://rpc'', contractAddress = ''0xdid'', batchSize_c = 500, concurrency_c = 0,
        retryAttempts_c = 0\<rparr>
      \<lparr>totalSupply = Inr 0, staticCall = (\<lambda>calls attempt. Inl ''down''), latency = (\<lambda>calls. 0),
        encodeTokenByIndex = (\<lambda>i. ''t''), encodeGetMetadata = (\<lambda>t. ''m''),
        encodeOwnerOf = (\<lambda>t. ''o''), decodeTokenByIndex = (\<lambda>r. Inl ''bad''),
        decodeGetMetadata = (\<lambda>r. Inl ''bad''), decodeOwnerOf = (\<lambda>r. Inl ''bad'')\<rparr>
     = Some (Inr [])
   \<and> indexAllDomains
      \<lparr>rpcUrl = ''http://rpc'', contractAddress = ''0xdid'', batchSize_c = 500, concurrency_c = 5,
        retryAttempts_c = 0\<rparr>
      \<lparr>totalSupply = Inr 1, staticCall = (\<lambda>calls attempt. Inl ''down''), latency = (\<lambda>calls. 0),
        encodeTokenByIndex = (\<lambda>i. ''t''), encodeGetMetadata = (\<lambda>t. ''m''),
        encodeOwnerOf = (\<lambda>t. ''o''), decodeTokenByIndex = (\<lambda>r. Inl ''bad''),
        decodeGetMetadata = (\<lambda>r. Inl ''bad''), decodeOwnerOf = (\<lambda>r. Inl ''bad'')\<rparr>
     = Some (Inl (Error ''Multicall failed''))
   \<and> executeMulticallWithRetry
      \<lparr>rpcUrl = ''http://rpc'', contractAddress = ''0xdid'', batchSize_c = 500, concurrency_c = 5,
        retryAttempts_c = 0\<rparr>
      \<lparr>totalSupply = Inr 1, staticCall = (\<lambda>calls attempt. Inl ''down''), latency = (\<lambda>calls. 0),
        encodeTokenByIndex = (\<lambda>i. ''t''), encodeGetMetadata = (\<lambda>t. ''m''),
        encodeOwnerOf = (\<lambda>t. ''o''), decodeTokenByIndex = (\<lambda>r. Inl ''bad''),
        decodeGetMetadata = (\<lambda>r. Inl ''bad''), decodeOwnerOf = (\<lambda>r. Inl ''bad'')\<rparr>
      [''call'']
     = (Inl (Error ''Multicall failed''), [])"
  (is "indexAllDomains ?cfg0 ?C0 = Some (Inr []) \<and> indexAllDomains ?cfg1 ?C1 = ?r1
       \<and> executeMulticallWithRetry ?cfg1 ?C1 ?calls = ?r2")
proof -
  have "totalSupply ?C0 = Inr 0" by simp
  with indexAllDomains_no_validation[of ?C0 ?cfg0 "[]"]
  have a: "indexAllDomains ?cfg0 ?C0 = Some (Inr [])" by blast
  have "retryAttempts_c ?cfg1 < 1" by simp
  with indexAllDomains_no_validation[of ?C1 ?cfg1 ?calls]
  have c: "executeMulticallWithRetry ?cfg1 ?C1 ?calls = ?r2" by blast
  have b: "indexAllDomains ?cfg1 ?C1 = ?r1" by code_simp
  show ?thesis using a b c by blast
qed

text \<open>
  The claim C9 as it was stated fails: with \<open>batchSize\<close>, \<open>concurrency\<close> and
  \<open>retryAttempts\<close> all 0 the run on an empty registry completes with the empty
  list, and with \<open>retryAttempts = 0\<close> the run on a registry of one record fails with
  \<open>Error('Multicall failed')\<close>, which is no \<open>ConfigError\<close>.
\<close>

theorem indexAllDomains_invalid_config_counterexample:
  "indexAllDomains
      \<lparr>rpcUrl = ''http://rpc'', contractAddress = ''0xdid'', batchSize_c = 0, concurrency_c = 0,
        retryAttempts_c = 0\<rparr>
      \<lparr>totalSupply = Inr 0, staticCall = (\<lambda>calls attempt. Inl ''down''), latency = (\<lambda>calls. 0),
        encodeTokenByIndex = (\<lambda>i. ''t''), encodeGetMetadata = (\<lambda>t. ''m''),
        encodeOwnerOf = (\<lambda>t. ''o''), decodeTokenByIndex = (\<lambda>r. Inl ''bad''),
        decodeGetMetadata = (\<lambda>r. Inl ''bad''), decodeOwnerOf = (\<lambda>r. Inl ''bad'')\<rparr>
     = Some (Inr [])
   \<and> indexAllDomains
      \<lparr>rpcUrl = ''http://rpc'', contractAddress = ''0xdid'', batchSize_c = 500, concurrency_c = 5,
        retryAttempts_c = 0\<rparr>
      \<lparr>totalSupply = Inr 1, staticCall = (\<lambda>calls attempt. Inl ''down''), latency = (\<lambda>calls. 0),
        encodeTokenByIndex = (\<lambda>i. ''t''), encodeGetMetadata = (\<lambda>t. ''m''),
        encodeOwnerOf = (\<lambda>t. ''o''), decodeTokenByIndex = (\<lambda>r. Inl ''bad''),
        decodeGetMetadata = (\<lambda>r. Inl ''bad''), decodeOwnerOf = (\<lambda>r. Inl ''bad'')\<rparr>
     = Some (Inl (Error ''Multicall failed''))"
  by code_simp

end
